theory Spec2Isabelle
  imports Main
begin

section \<open>Data model of \<open>ble_scan.c\<close>\<close>

text \<open>
  Pointers are natural numbers, \<open>NULL\<close> is \<open>0\<close>. The C heap is a map from addresses to
  the objects the program allocates: \<open>struct connection_t\<close> records (by \<open>calloc\<close>) and
  copied address strings (by \<open>strdup\<close>). The allocator hands out addresses from a counter,
  so a new block never aliases a live one.
\<close>

type_synonym ptr = nat

abbreviation NULL :: ptr where
  "NULL \<equiv> 0"

text \<open>State of a \<open>pthread_mutex_t\<close> or \<open>pthread_cond_t\<close> embedded in a record.\<close>

datatype sync_state = Uninit | Ready | Destroyed

text \<open>
  \<open>struct connection_t\<close> (lines 43-51). The \<open>entries\<close> link is represented by the position
  of the record's pointer in the list \<open>g_ble_connections\<close> of the state.
\<close>

record connection_t =
  thread :: nat
  adapter :: ptr
  addr :: ptr
  done_mutex :: sync_state
  done_cond :: sync_state
  is_done :: bool

datatype obj = Conn connection_t | Str string

datatype mutex = G_mutex | Done_mutex ptr

text \<open>
  What \<open>printf\<close> and \<open>puts\<close> write, one constructor per format string of the source, with
  the values printed: \<open>Service i start end uuid\<close>, \<open>Characteristic i properties value_handle uuid\<close>.
\<close>

datatype printed =
    Discovered string "string option"
  | Start ptr
  | Done ptr
  | Scan_completed
  | Usage string
  | Service nat nat nat string
  | Characteristic nat nat nat string

text \<open>The calls a thread makes, in program order.\<close>

datatype event =
    Printf printed
  | Log string
  | Gattlib_mainloop
  | Gattlib_adapter_open "string option"
  | Gattlib_adapter_scan_enable ptr nat
  | Gattlib_adapter_scan_disable ptr
  | Gattlib_adapter_close ptr
  | Gattlib_connect ptr
  | Gattlib_discover_primary ptr
  | Gattlib_discover_char ptr
  | Gattlib_disconnect ptr bool
  | Calloc ptr
  | Strdup ptr
  | Free ptr
  | Pthread_mutex_init ptr
  | Pthread_cond_init ptr
  | Pthread_mutex_destroy ptr
  | Pthread_cond_destroy ptr
  | Pthread_mutex_lock mutex
  | Pthread_mutex_unlock mutex
  | Pthread_cond_signal ptr
  | Pthread_cond_wait ptr
  | Pthread_create ptr int
  | Pthread_join nat
  | List_insert_head ptr
  | List_remove ptr
  | Set_is_done ptr bool

text \<open>
  The globals of the program (\<open>adapter_name\<close>, \<open>g_mutex\<close>, \<open>g_ble_connections\<close>), the heap,
  the worker threads created so far (thread id and the record passed as argument), and
  the trace of calls of the controller thread. \<open>fault\<close> records undefined behaviour: a read
  through a pointer that is not a live record, or \<open>free\<close> of a block that is not live.
\<close>

record state =
  adapter_name :: "string option"
  g_mutex :: bool
  g_ble_connections :: "ptr list"
  heap :: "ptr \<rightharpoonup> obj"
  next_ptr :: ptr
  threads :: "(nat \<times> ptr) list"
  trace :: "event list"
  fault :: bool

definition BLE_SCAN_TIMEOUT :: nat where
  "BLE_SCAN_TIMEOUT = 10"

definition GATTLIB_SUCCESS :: int where
  "GATTLIB_SUCCESS = 0"

definition CONNECT_DEVICE_NAME :: string where
  "CONNECT_DEVICE_NAME = ''Local''"

definition init_state :: state where
  "init_state = \<lparr>adapter_name = None, g_mutex = False, g_ble_connections = [],
     heap = Map.empty, next_ptr = 1, threads = [], trace = [], fault = False\<rparr>"

section \<open>Library calls\<close>

definition emit :: "event \<Rightarrow> state \<Rightarrow> state" where
  "emit ev s = s\<lparr>trace := trace s @ [ev]\<rparr>"

definition alloc :: "obj \<Rightarrow> state \<Rightarrow> ptr \<times> state" where
  "alloc ob s = (next_ptr s, s\<lparr>heap := (heap s)(next_ptr s \<mapsto> ob), next_ptr := Suc (next_ptr s)\<rparr>)"

text \<open>\<open>calloc\<close> zero-fills the record; \<open>ok\<close> is whether the allocator has memory.\<close>

definition calloc :: "bool \<Rightarrow> state \<Rightarrow> ptr \<times> state" where
  "calloc ok s =
     (if ok then
        (let (p, s1) = alloc (Conn \<lparr>thread = 0, adapter = NULL, addr = NULL,
                                done_mutex = Uninit, done_cond = Uninit, is_done = False\<rparr>) s
         in (p, emit (Calloc p) s1))
      else (NULL, emit (Calloc NULL) s))"

definition strdup :: "bool \<Rightarrow> string \<Rightarrow> state \<Rightarrow> ptr \<times> state" where
  "strdup ok str s =
     (if ok then (let (p, s1) = alloc (Str str) s in (p, emit (Strdup p) s1))
      else (NULL, emit (Strdup NULL) s))"

text \<open>\<open>free(NULL)\<close> does nothing; freeing a block that is not live is undefined.\<close>

definition free :: "ptr \<Rightarrow> state \<Rightarrow> state" where
  "free p s =
     (let s1 = emit (Free p) s in
      if p = NULL then s1
      else if heap s p = None then s1\<lparr>fault := True\<rparr>
      else s1\<lparr>heap := (heap s)(p := None)\<rparr>)"

text \<open>A write to a field of the record at \<open>p\<close>.\<close>

definition upd_conn :: "ptr \<Rightarrow> (connection_t \<Rightarrow> connection_t) \<Rightarrow> state \<Rightarrow> state" where
  "upd_conn p f s =
     (case heap s p of
        Some (Conn c) \<Rightarrow> s\<lparr>heap := (heap s)(p \<mapsto> Conn (f c))\<rparr>
      | _ \<Rightarrow> s\<lparr>fault := True\<rparr>)"

definition pthread_mutex_init :: "ptr \<Rightarrow> state \<Rightarrow> state" where
  "pthread_mutex_init p s = emit (Pthread_mutex_init p) (upd_conn p (\<lambda>c. c\<lparr>done_mutex := Ready\<rparr>) s)"

definition pthread_cond_init :: "ptr \<Rightarrow> state \<Rightarrow> state" where
  "pthread_cond_init p s = emit (Pthread_cond_init p) (upd_conn p (\<lambda>c. c\<lparr>done_cond := Ready\<rparr>) s)"

definition pthread_mutex_destroy :: "ptr \<Rightarrow> state \<Rightarrow> state" where
  "pthread_mutex_destroy p s =
     emit (Pthread_mutex_destroy p) (upd_conn p (\<lambda>c. c\<lparr>done_mutex := Destroyed\<rparr>) s)"

definition pthread_cond_destroy :: "ptr \<Rightarrow> state \<Rightarrow> state" where
  "pthread_cond_destroy p s =
     emit (Pthread_cond_destroy p) (upd_conn p (\<lambda>c. c\<lparr>done_cond := Destroyed\<rparr>) s)"

text \<open>
  \<open>pthread_create(&connection->thread, NULL, ble_connect_device, connection)\<close>: \<open>ret\<close> is the
  status the system returns. On success the new thread's id is stored in the record and
  the thread exists from then on; on failure no thread exists and the field is left alone.
\<close>

definition pthread_create :: "int \<Rightarrow> ptr \<Rightarrow> state \<Rightarrow> int \<times> state" where
  "pthread_create ret p s =
     (let s1 = emit (Pthread_create p ret) s in
      if ret = 0 then
        (let tid = Suc (length (threads s1));
             s2 = upd_conn p (\<lambda>c. c\<lparr>thread := tid\<rparr>) s1
         in (ret, s2\<lparr>threads := threads s2 @ [(tid, p)]\<rparr>))
      else (ret, s1))"

definition LIST_INSERT_HEAD :: "ptr \<Rightarrow> state \<Rightarrow> state" where
  "LIST_INSERT_HEAD p s = emit (List_insert_head p) (s\<lparr>g_ble_connections := p # g_ble_connections s\<rparr>)"

section \<open>The discovery callback\<close>

text \<open>What the system answers during one invocation of the callback.\<close>

record cb_env =
  calloc_ok :: bool
  strdup_ok :: bool
  create_ret :: int

text \<open>\<open>ble_discovered_device\<close>, lines 130-167. \<open>name = None\<close> is the \<open>NULL\<close> name.\<close>

definition ble_discovered_device :: "cb_env \<Rightarrow> ptr \<Rightarrow> string \<Rightarrow> string option \<Rightarrow> state \<Rightarrow> state" where
  "ble_discovered_device e adapter_arg addr_arg name s =
     (case name of
        Some n \<Rightarrow>
          (let s1 = emit (Printf (Discovered addr_arg (Some n))) s in
           if n \<noteq> CONNECT_DEVICE_NAME then s1
           else
             (let (connection, s2) = calloc (calloc_ok e) s1 in
              if connection = NULL then emit (Log ''Failt to allocate connection.'') s2
              else
                (let (a, s3) = strdup (strdup_ok e) addr_arg s2;
                     s4 = upd_conn connection (\<lambda>c. c\<lparr>addr := a\<rparr>) s3;
                     s5 = upd_conn connection (\<lambda>c. c\<lparr>adapter := adapter_arg\<rparr>) s4;
                     s6 = upd_conn connection (\<lambda>c. c\<lparr>is_done := False\<rparr>) s5;
                     s7 = pthread_mutex_init connection s6;
                     s8 = pthread_cond_init connection s7;
                     (ret, s9) = pthread_create (create_ret e) connection s8
                 in if ret \<noteq> 0 then
                      free connection (emit (Log ''Failt to create BLE connection thread.'') s9)
                    else LIST_INSERT_HEAD connection s9)))
      | None \<Rightarrow> emit (Printf (Discovered addr_arg None)) s)"

section \<open>The scan controller\<close>

text \<open>One advertisement delivered by the scan: address, optional name, and the system's answers
  during the callback it triggers.\<close>

type_synonym advert = "string \<times> string option \<times> cb_env"

text \<open>
  \<open>gattlib_adapter_scan_enable\<close> is synchronous: it invokes the callback once for each
  advertisement, in order, and returns its status.
\<close>

fun scan_callbacks :: "ptr \<Rightarrow> advert list \<Rightarrow> state \<Rightarrow> state" where
  "scan_callbacks ad [] s = s"
| "scan_callbacks ad ((a, n, ce) # rest) s = scan_callbacks ad rest (ble_discovered_device ce ad a n s)"

definition gattlib_adapter_scan_enable :: "int \<Rightarrow> advert list \<Rightarrow> ptr \<Rightarrow> nat \<Rightarrow> state \<Rightarrow> int \<times> state" where
  "gattlib_adapter_scan_enable ret ads ad timeout s =
     (ret, scan_callbacks ad ads (emit (Gattlib_adapter_scan_enable ad timeout) s))"

text \<open>The controller locks and unlocks \<open>g_mutex\<close>; locking a mutex it already holds is a fault.\<close>

definition pthread_mutex_lock_g :: "state \<Rightarrow> state" where
  "pthread_mutex_lock_g s =
     (let s1 = emit (Pthread_mutex_lock G_mutex) s in
      if g_mutex s then s1\<lparr>fault := True\<rparr> else s1\<lparr>g_mutex := True\<rparr>)"

definition pthread_mutex_unlock_g :: "state \<Rightarrow> state" where
  "pthread_mutex_unlock_g s =
     (let s1 = emit (Pthread_mutex_unlock G_mutex) s in
      if g_mutex s then s1\<lparr>g_mutex := False\<rparr> else s1\<lparr>fault := True\<rparr>)"

text \<open>
  One iteration of the loop of lines 193-201, for the head \<open>p\<close> of the list.
  \<open>pthread_join\<close> is taken to return.
\<close>

definition drain_one :: "ptr \<Rightarrow> state \<Rightarrow> state" where
  "drain_one p s =
     (case heap s p of
        Some (Conn c) \<Rightarrow>
          (let s1 = emit (Pthread_join (thread c)) s;
               s2 = emit (List_remove p) (s1\<lparr>g_ble_connections := tl (g_ble_connections s1)\<rparr>);
               s3 = free (addr c) s2;
               s4 = pthread_mutex_destroy p s3;
               s5 = pthread_cond_destroy p s4
           in free p s5)
      | _ \<Rightarrow> s\<lparr>g_ble_connections := tl (g_ble_connections s), fault := True\<rparr>)"

function drain :: "state \<Rightarrow> state" where
  "drain s =
     (case g_ble_connections s of
        [] \<Rightarrow> s
      | p # _ \<Rightarrow> drain (drain_one p s))"
  by pat_completeness auto

termination
proof (relation "measure (\<lambda>s. length (g_ble_connections s))")
  show "wf (measure (\<lambda>s. length (g_ble_connections s)))"
    by simp
next
  fix s :: state and p :: ptr and r :: "ptr list"
  assume reg: "g_ble_connections s = p # r"
  have emit: "g_ble_connections (emit ev t) = g_ble_connections t" for ev t
    by (simp add: emit_def)
  have free: "g_ble_connections (free q t) = g_ble_connections t" for q t
    by (simp add: free_def emit_def Let_def)
  have upd: "g_ble_connections (upd_conn q f t) = g_ble_connections t" for q f t
    by (simp add: upd_conn_def split: option.split obj.split)
  have "g_ble_connections (drain_one p s) = tl (g_ble_connections s)"
    by (simp add: drain_one_def pthread_mutex_destroy_def pthread_cond_destroy_def emit free upd
        split: option.split obj.split)
  with reg show "(drain_one p s, s) \<in> measure (\<lambda>s. length (g_ble_connections s))"
    by simp
qed

text \<open>What the library answers during one run of the task.\<close>

record env =
  open_ret :: int
  open_adapter :: ptr
  scan_ads :: "advert list"
  scan_ret :: int

text \<open>
  \<open>ble_task\<close>, lines 169-206. It returns \<open>NULL\<close> on every path; the second component is the
  state it leaves.
\<close>

definition ble_task :: "env \<Rightarrow> state \<Rightarrow> ptr \<times> state" where
  "ble_task e s =
     (let s1 = emit (Gattlib_adapter_open (adapter_name s)) s;
          ret = open_ret e;
          ad = open_adapter e
      in if ret \<noteq> 0 then (NULL, emit (Log ''Failed to open adapter.'') s1)
         else
           (let s2 = pthread_mutex_lock_g s1;
                (ret, s3) = gattlib_adapter_scan_enable (scan_ret e) (scan_ads e) ad BLE_SCAN_TIMEOUT s2
            in if ret \<noteq> 0 then
                 (NULL, emit (Gattlib_adapter_close ad) (emit (Log ''Failed to scan.'') s3))
               else
                 (let s4 = emit (Gattlib_adapter_scan_disable ad) s3;
                      s5 = emit (Printf Scan_completed) s4;
                      s6 = pthread_mutex_unlock_g s5;
                      s7 = drain s6
                  in (NULL, emit (Gattlib_adapter_close ad) s7))))"

section \<open>The entry point\<close>

text \<open>
  \<open>gattlib_mainloop(ble_task, NULL)\<close> belongs to the library: \<open>mainloop_runs\<close> is whether it
  gets to run the task, \<open>mainloop_ret\<close> the status it returns. The task hands it nothing but
  the \<open>NULL\<close> it returns.
\<close>

record main_env =
  mainloop_runs :: bool
  mainloop_ret :: int
  task_env :: env

definition gattlib_mainloop :: "main_env \<Rightarrow> state \<Rightarrow> int \<times> state" where
  "gattlib_mainloop e s =
     (let s1 = emit Gattlib_mainloop s in
      (mainloop_ret e, if mainloop_runs e then snd (ble_task (task_env e) s1) else s1))"

text \<open>
  \<open>main\<close>, lines 208-229: \<open>argv\<close> is the argument vector, \<open>argc\<close> its length. The result is
  the exit status and the final state.
\<close>

definition main :: "string list \<Rightarrow> main_env \<Rightarrow> state \<Rightarrow> int \<times> state" where
  "main argv e s =
     (if length argv = 1 \<or> length argv = 2 then
        (let s1 = s\<lparr>adapter_name := (if length argv = 1 then None else Some (argv ! 1))\<rparr>;
             s2 = s1\<lparr>g_ble_connections := []\<rparr>;
             (ret, s3) = gattlib_mainloop e s2
         in if ret \<noteq> GATTLIB_SUCCESS
            then (ret, emit (Log ''Failed to create gattlib mainloop'') s3)
            else (ret, s3))
      else
        (case argv of
           [] \<Rightarrow> (1, s\<lparr>fault := True\<rparr>)
         | prog # _ \<Rightarrow> (1, emit (Printf (Usage prog)) s)))"

section \<open>The connection completion callback\<close>

text \<open>
  Entries of the arrays the library returns: a service is its start handle, end handle and
  UUID (in the text form of \<open>gattlib_uuid_to_string\<close>); a characteristic its properties,
  value handle and UUID.
\<close>

type_synonym gattlib_primary_service_t = "nat \<times> nat \<times> string"
type_synonym gattlib_characteristic_t = "nat \<times> nat \<times> string"

text \<open>What the library answers during one run of the callback.\<close>

record connect_env =
  primary_ret :: int
  services :: "gattlib_primary_service_t list"
  services_ptr :: ptr
  char_ret :: int
  characteristics :: "gattlib_characteristic_t list"
  characteristics_ptr :: ptr
  disconnect_ret :: int

text \<open>The two \<open>for\<close> loops of lines 68-74 and 82-88, from index \<open>i\<close> on.\<close>

fun print_services :: "nat \<Rightarrow> gattlib_primary_service_t list \<Rightarrow> event list" where
  "print_services i [] = []"
| "print_services i ((st, en, u) # rest) = Printf (Service i st en u) # print_services (Suc i) rest"

fun print_characteristics :: "nat \<Rightarrow> gattlib_characteristic_t list \<Rightarrow> event list" where
  "print_characteristics i [] = []"
| "print_characteristics i ((pr, vh, u) # rest) =
     Printf (Characteristic i pr vh u) # print_characteristics (Suc i) rest"

text \<open>The code from the label \<open>disconnect_exit\<close> on, lines 91-101.\<close>

definition disconnect_exit :: "connect_env \<Rightarrow> ptr \<Rightarrow> ptr \<Rightarrow> event list" where
  "disconnect_exit e conn connection =
     Gattlib_disconnect conn True #
     (if disconnect_ret e \<noteq> GATTLIB_SUCCESS
      then [Log ''Failed to disconnect from the bluetooth device'']
      else []) @
     [Pthread_mutex_lock (Done_mutex connection),
      Set_is_done connection True,
      Pthread_cond_signal connection,
      Pthread_mutex_unlock (Done_mutex connection)]"

text \<open>
  \<open>on_device_connect\<close>, lines 53-102: the calls it makes, in order. It runs on a thread of
  the library, so its effect on the shared state is given by the interleaving semantics below.
\<close>

definition on_device_connect ::
  "connect_env \<Rightarrow> ptr \<Rightarrow> string \<Rightarrow> ptr \<Rightarrow> int \<Rightarrow> ptr \<Rightarrow> event list" where
  "on_device_connect e adapter_arg dst conn error user_data =
     (let connection = user_data in
      Gattlib_discover_primary conn #
      (if primary_ret e \<noteq> 0 then
         Log ''Fail to discover primary services.'' # disconnect_exit e conn connection
       else
         print_services 0 (services e) @
         Free (services_ptr e) #
         Gattlib_discover_char conn #
         (if char_ret e \<noteq> 0 then
            Log ''Fail to discover characteristics.'' # disconnect_exit e conn connection
          else
            print_characteristics 0 (characteristics e) @
            Free (characteristics_ptr e) #
            disconnect_exit e conn connection)))"

section \<open>Threads\<close>

text \<open>
  The controller, one worker per record (running \<open>ble_connect_device\<close>) and, per record,
  the library thread that runs the completion callback.
\<close>

datatype tid = Controller | Worker ptr | Callback ptr

text \<open>
  Where a worker is in \<open>ble_connect_device\<close> (lines 104-128): the statement it executes
  next. \<open>W_wait\<close> is blocked inside \<open>pthread_cond_wait\<close> with the record's mutex released,
  \<open>W_relock\<close> is woken up and about to take the mutex again before the call returns.
\<close>

datatype wpc =
    W_none
  | W_lock_g
  | W_print_start
  | W_connect
  | W_lock_done
  | W_test
  | W_wait
  | W_relock
  | W_unlock_done
  | W_print_done
  | W_unlock_g
  | W_exit

text \<open>
  Where the controller is in \<open>ble_task\<close>: before line 180, inside the scan call of line 181,
  after a successful scan (lines 187-190), at the drain loop (line 193), or at \<open>EXIT\<close>
  after a failed scan (line 204).
\<close>

datatype kpc = K_lock_g | K_scan | K_scanned | K_drain | K_exit

record sys =
  mtx :: "mutex \<Rightarrow> tid option"
  done_flag :: "ptr \<Rightarrow> bool"
  wpc_of :: "ptr \<Rightarrow> wpc"
  requested :: "ptr \<Rightarrow> bool"
  cb :: "ptr \<Rightarrow> event list option"
  kpc_of :: kpc
  log :: "(tid \<times> event) list"

definition init_sys :: sys where
  "init_sys = \<lparr>mtx = (\<lambda>_. None), done_flag = (\<lambda>_. False), wpc_of = (\<lambda>_. W_none),
     requested = (\<lambda>_. False), cb = (\<lambda>_. None), kpc_of = K_lock_g, log = []\<rparr>"

definition logged :: "tid \<Rightarrow> event \<Rightarrow> sys \<Rightarrow> sys" where
  "logged t ev s = s\<lparr>log := log s @ [(t, ev)]\<rparr>"

text \<open>
  \<open>pthread_mutex_lock\<close> blocks until the mutex is free (\<open>None\<close>: the thread cannot take
  the step now); \<open>pthread_mutex_unlock\<close> frees it.
\<close>

definition lock :: "tid \<Rightarrow> mutex \<Rightarrow> sys \<Rightarrow> sys option" where
  "lock t m s =
     (if mtx s m = None then Some (logged t (Pthread_mutex_lock m) (s\<lparr>mtx := (mtx s)(m \<mapsto> t)\<rparr>))
      else None)"

definition unlock :: "tid \<Rightarrow> mutex \<Rightarrow> sys \<Rightarrow> sys" where
  "unlock t m s = logged t (Pthread_mutex_unlock m) (s\<lparr>mtx := (mtx s)(m := None)\<rparr>)"

definition goto :: "ptr \<Rightarrow> wpc \<Rightarrow> sys \<Rightarrow> sys" where
  "goto c pc s = s\<lparr>wpc_of := (wpc_of s)(c := pc)\<rparr>"

text \<open>
  One statement of the worker of record \<open>c\<close>; \<open>ret\<close> is what \<open>gattlib_connect\<close> returns
  when the statement is that call. \<open>None\<close>: the worker is blocked, or has returned.
\<close>

definition ble_connect_device :: "ptr \<Rightarrow> int \<Rightarrow> sys \<Rightarrow> sys option" where
  "ble_connect_device c ret s =
     (case wpc_of s c of
        W_none \<Rightarrow> None
      | W_lock_g \<Rightarrow> map_option (goto c W_print_start) (lock (Worker c) G_mutex s)
      | W_print_start \<Rightarrow> Some (goto c W_connect (logged (Worker c) (Printf (Start c)) s))
      | W_connect \<Rightarrow>
          (let s1 = logged (Worker c) (Gattlib_connect c) (s\<lparr>requested := (requested s)(c := True)\<rparr>);
               s2 = (if ret \<noteq> GATTLIB_SUCCESS
                     then logged (Worker c) (Log ''Failed to connect to the bluetooth device'') s1
                     else s1)
           in Some (goto c W_lock_done s2))
      | W_lock_done \<Rightarrow> map_option (goto c W_test) (lock (Worker c) (Done_mutex c) s)
      | W_test \<Rightarrow>
          (if \<not> done_flag s c
           then Some (goto c W_wait
                  (logged (Worker c) (Pthread_cond_wait c) (s\<lparr>mtx := (mtx s)(Done_mutex c := None)\<rparr>)))
           else Some (goto c W_unlock_done s))
      | W_wait \<Rightarrow> None
      | W_relock \<Rightarrow>
          (if mtx s (Done_mutex c) = None
           then Some (goto c W_test (s\<lparr>mtx := (mtx s)(Done_mutex c \<mapsto> Worker c)\<rparr>))
           else None)
      | W_unlock_done \<Rightarrow> Some (goto c W_print_done (unlock (Worker c) (Done_mutex c) s))
      | W_print_done \<Rightarrow> Some (goto c W_unlock_g (logged (Worker c) (Printf (Done c)) s))
      | W_unlock_g \<Rightarrow> Some (goto c W_exit (unlock (Worker c) G_mutex s))
      | W_exit \<Rightarrow> None)"

text \<open>A blocked waiter may wake up without a signal.\<close>

definition spurious_wakeup :: "ptr \<Rightarrow> sys \<Rightarrow> sys option" where
  "spurious_wakeup c s = (if wpc_of s c = W_wait then Some (goto c W_relock s) else None)"

text \<open>
  The effect of one call of the callback of record \<open>c\<close> on the shared state.
  \<open>pthread_cond_signal\<close> wakes the waiter if there is one, and is lost otherwise.
\<close>

fun callback_call :: "ptr \<Rightarrow> event \<Rightarrow> sys \<Rightarrow> sys option" where
  "callback_call c (Pthread_mutex_lock m) s = lock (Callback c) m s"
| "callback_call c (Pthread_mutex_unlock m) s = Some (unlock (Callback c) m s)"
| "callback_call c (Set_is_done p b) s =
     Some (logged (Callback c) (Set_is_done p b) (s\<lparr>done_flag := (done_flag s)(p := b)\<rparr>))"
| "callback_call c (Pthread_cond_signal p) s =
     Some (logged (Callback c) (Pthread_cond_signal p)
            (if wpc_of s p = W_wait then goto p W_relock s else s))"
| "callback_call c ev s = Some (logged (Callback c) ev s)"

text \<open>
  The library starts the callback of a record at most once, and only after the worker has
  called \<open>gattlib_connect\<close> for it; it may also never start it.
\<close>

definition invoke_callback ::
  "ptr \<Rightarrow> connect_env \<Rightarrow> ptr \<Rightarrow> string \<Rightarrow> ptr \<Rightarrow> int \<Rightarrow> sys \<Rightarrow> sys option" where
  "invoke_callback c e ad dst conn error s =
     (if requested s c \<and> cb s c = None
      then Some (s\<lparr>cb := (cb s)(c \<mapsto> on_device_connect e ad dst conn error c)\<rparr>)
      else None)"

definition callback_step :: "ptr \<Rightarrow> sys \<Rightarrow> sys option" where
  "callback_step c s =
     (case cb s c of
        Some (ev # rest) \<Rightarrow> map_option (\<lambda>s1. s1\<lparr>cb := (cb s1)(c \<mapsto> rest)\<rparr>) (callback_call c ev s)
      | _ \<Rightarrow> None)"

text \<open>
  The controller, as far as the threads see it: it takes \<open>g_mutex\<close> (line 180); during the
  scan the discovery callback initialises records and creates their workers (lines 156-160);
  the scan returns with success or failure; after success the controller releases
  \<open>g_mutex\<close> (line 190), after failure it jumps to \<open>EXIT\<close> (line 184).
\<close>

datatype kstep = Take_g | Spawn ptr | Scan_ok | Scan_failed | Release_g

definition controller_step :: "kstep \<Rightarrow> sys \<Rightarrow> sys option" where
  "controller_step k s =
     (case k of
        Take_g \<Rightarrow>
          (if kpc_of s = K_lock_g then map_option (\<lambda>s1. s1\<lparr>kpc_of := K_scan\<rparr>) (lock Controller G_mutex s)
           else None)
      | Spawn c \<Rightarrow>
          (if kpc_of s = K_scan \<and> c \<noteq> NULL \<and> wpc_of s c = W_none
           then Some (goto c W_lock_g
                  (logged Controller (Pthread_create c 0) (s\<lparr>done_flag := (done_flag s)(c := False)\<rparr>)))
           else None)
      | Scan_ok \<Rightarrow> (if kpc_of s = K_scan then Some (s\<lparr>kpc_of := K_scanned\<rparr>) else None)
      | Scan_failed \<Rightarrow> (if kpc_of s = K_scan then Some (s\<lparr>kpc_of := K_exit\<rparr>) else None)
      | Release_g \<Rightarrow>
          (if kpc_of s = K_scanned then Some ((unlock Controller G_mutex s)\<lparr>kpc_of := K_drain\<rparr>)
           else None))"

text \<open>A scheduler choice: which thread takes its next step.\<close>

datatype choice =
    Ctl kstep
  | Wrk ptr int
  | Wake ptr
  | Invoke ptr connect_env ptr string ptr int
  | Cbk ptr

fun step :: "choice \<Rightarrow> sys \<Rightarrow> sys option" where
  "step (Ctl k) s = controller_step k s"
| "step (Wrk c ret) s = ble_connect_device c ret s"
| "step (Wake c) s = spurious_wakeup c s"
| "step (Invoke c e ad dst conn error) s = invoke_callback c e ad dst conn error s"
| "step (Cbk c) s = callback_step c s"

text \<open>Running a schedule from a state; \<open>None\<close> when it asks a thread for a step it cannot take.\<close>

fun run :: "choice list \<Rightarrow> sys \<Rightarrow> sys option" where
  "run [] s = Some s"
| "run (ch # rest) s = (case step ch s of None \<Rightarrow> None | Some s1 \<Rightarrow> run rest s1)"

inductive reachable :: "sys \<Rightarrow> bool" where
  init: "reachable init_sys"
| step: "reachable s \<Longrightarrow> step ch s = Some s1 \<Longrightarrow> reachable s1"

section \<open>Notions used in the statements\<close>

subsection \<open>The discovery callback and the registry\<close>

text \<open>The record of an accepted device when the callback returns.\<close>

definition new_conn :: "ptr \<Rightarrow> ptr \<Rightarrow> nat \<Rightarrow> connection_t" where
  "new_conn ad a tid =
     \<lparr>thread = tid, adapter = ad, addr = a, done_mutex = Ready, done_cond = Ready, is_done = False\<rparr>"

text \<open>The name filter of line 138.\<close>

definition accepted_name :: "string option \<Rightarrow> bool" where
  "accepted_name name \<longleftrightarrow> name = Some CONNECT_DEVICE_NAME"

text \<open>The callback accepts an advertisement when the name matches and the system has the
  memory and the thread for it.\<close>

definition accepted :: "cb_env \<Rightarrow> string option \<Rightarrow> bool" where
  "accepted e name \<longleftrightarrow> name = Some CONNECT_DEVICE_NAME \<and> calloc_ok e \<and> create_ret e = 0"

text \<open>The allocator's counter is above every live block, and never \<open>NULL\<close>.\<close>

definition heap_wf :: "state \<Rightarrow> bool" where
  "heap_wf s \<longleftrightarrow> 0 < next_ptr s \<and> (\<forall>p. next_ptr s \<le> p \<longrightarrow> heap s p = None)"

text \<open>The live records.\<close>

definition records :: "state \<Rightarrow> ptr set" where
  "records s = {p. \<exists>c. heap s p = Some (Conn c)}"

text \<open>The \<open>thread\<close> and \<open>addr\<close> fields of the record at \<open>p\<close>.\<close>

definition thread_of :: "(ptr \<rightharpoonup> obj) \<Rightarrow> ptr \<Rightarrow> nat" where
  "thread_of h p = (case h p of Some (Conn c) \<Rightarrow> thread c | _ \<Rightarrow> 0)"

definition addr_of :: "(ptr \<rightharpoonup> obj) \<Rightarrow> ptr \<Rightarrow> ptr" where
  "addr_of h p = (case h p of Some (Conn c) \<Rightarrow> addr c | _ \<Rightarrow> NULL)"

text \<open>A release call on block \<open>x\<close> occurs in a trace.\<close>

definition released :: "ptr \<Rightarrow> event list \<Rightarrow> bool" where
  "released x tr \<longleftrightarrow>
     Free x \<in> set tr \<or> Pthread_mutex_destroy x \<in> set tr \<or> Pthread_cond_destroy x \<in> set tr"

text \<open>
  What holds of the registry \<open>r\<close>, the heap \<open>h\<close>, the allocator's counter \<open>n\<close>, the
  threads \<open>th\<close> and the trace \<open>tr\<close> whenever the controller is between two callbacks or two
  iterations of the drain loop: the listed pointers are distinct live records, each with the
  thread that was created for it, each owning its own copied address string (or none, if
  \<open>strdup\<close> failed), and no block that can still be live has ever been released.
\<close>

definition reg_ok :: "ptr list \<Rightarrow> (ptr \<rightharpoonup> obj) \<Rightarrow> ptr \<Rightarrow> (nat \<times> ptr) list \<Rightarrow> event list \<Rightarrow> bool" where
  "reg_ok r h n th tr \<longleftrightarrow>
     0 < n \<and> h NULL = None \<and> (\<forall>p. n \<le> p \<longrightarrow> h p = None) \<and> distinct r \<and>
     (\<forall>p \<in> set r.
        p \<noteq> NULL \<and>
        (\<exists>c. h p = Some (Conn c) \<and> (thread c, p) \<in> set th \<and>
             (addr c = NULL \<or> (\<exists>str. h (addr c) = Some (Str str))))) \<and>
     (\<forall>p \<in> set r. \<forall>q \<in> set r. p \<noteq> q \<longrightarrow> addr_of h p = NULL \<or> addr_of h p \<noteq> addr_of h q) \<and>
     (\<forall>x. released x tr \<longrightarrow> x = NULL \<or> (x < n \<and> h x = None))"

text \<open>The same of a state, which moreover has met no undefined behaviour.\<close>

definition reg_inv :: "state \<Rightarrow> bool" where
  "reg_inv s \<longleftrightarrow>
     \<not> fault s \<and> reg_ok (g_ble_connections s) (heap s) (next_ptr s) (threads s) (trace s)"

text \<open>The records inserted, the records removed and the threads joined, in the order of a trace.\<close>

definition inserted :: "event list \<Rightarrow> ptr list" where
  "inserted tr = List.map_filter (\<lambda>ev. case ev of List_insert_head p \<Rightarrow> Some p | _ \<Rightarrow> None) tr"

definition removed :: "event list \<Rightarrow> ptr list" where
  "removed tr = List.map_filter (\<lambda>ev. case ev of List_remove p \<Rightarrow> Some p | _ \<Rightarrow> None) tr"

definition joined :: "event list \<Rightarrow> nat list" where
  "joined tr = List.map_filter (\<lambda>ev. case ev of Pthread_join t \<Rightarrow> Some t | _ \<Rightarrow> None) tr"

text \<open>The calls of one iteration of the drain loop, for the record at \<open>p\<close> in heap \<open>h\<close>.\<close>

definition drain_calls :: "(ptr \<rightharpoonup> obj) \<Rightarrow> ptr \<Rightarrow> event list" where
  "drain_calls h p =
     [Pthread_join (thread_of h p), List_remove p, Free (addr_of h p),
      Pthread_mutex_destroy p, Pthread_cond_destroy p, Free p]"

text \<open>
  The state in which the controller reaches the drain loop (line 193) when the adapter
  opened and the scan succeeded.
\<close>

definition before_drain :: "env \<Rightarrow> state \<Rightarrow> state" where
  "before_drain e s =
     pthread_mutex_unlock_g
       (emit (Printf Scan_completed)
         (emit (Gattlib_adapter_scan_disable (open_adapter e))
           (snd (gattlib_adapter_scan_enable (scan_ret e) (scan_ads e) (open_adapter e) BLE_SCAN_TIMEOUT
                  (pthread_mutex_lock_g (emit (Gattlib_adapter_open (adapter_name s)) s))))))"

text \<open>
  The state in which \<open>gattlib_mainloop\<close> starts the task: nothing is allocated, no thread
  has been created, \<open>g_mutex\<close> is free, the registry is empty, and the trace holds nothing
  but the call of the main loop.
\<close>

definition task_start :: "state \<Rightarrow> bool" where
  "task_start s \<longleftrightarrow>
     heap s = Map.empty \<and> 0 < next_ptr s \<and> \<not> fault s \<and> \<not> g_mutex s \<and>
     g_ble_connections s = [] \<and> threads s = [] \<and> set (trace s) \<subseteq> {Gattlib_mainloop}"

text \<open>Nothing removed yet, and the registry is the insertions, last first.\<close>

definition scan_order :: "state \<Rightarrow> bool" where
  "scan_order s \<longleftrightarrow>
     removed (trace s) = [] \<and> joined (trace s) = [] \<and> g_ble_connections s = rev (inserted (trace s))"

subsection \<open>The threads\<close>

text \<open>Calls of the callback that touch no mutex, flag or condition variable.\<close>

definition quiet :: "event \<Rightarrow> bool" where
  "quiet ev \<longleftrightarrow>
     (case ev of
        Pthread_mutex_lock m \<Rightarrow> False
      | Pthread_mutex_unlock m \<Rightarrow> False
      | Set_is_done p b \<Rightarrow> False
      | Pthread_cond_signal p \<Rightarrow> False
      | _ \<Rightarrow> True)"

text \<open>The last four calls of the callback of record \<open>c\<close>, lines 98-101.\<close>

definition done_signal :: "ptr \<Rightarrow> event list" where
  "done_signal c =
     [Pthread_mutex_lock (Done_mutex c), Set_is_done c True, Pthread_cond_signal c,
      Pthread_mutex_unlock (Done_mutex c)]"

text \<open>
  A worker is in its critical section from the moment \<open>pthread_mutex_lock(&g_mutex)\<close>
  returns (line 110) until it has called \<open>pthread_mutex_unlock(&g_mutex)\<close> (line 126).
\<close>

definition in_critical_section :: "wpc \<Rightarrow> bool" where
  "in_critical_section pc \<longleftrightarrow> pc \<noteq> W_none \<and> pc \<noteq> W_lock_g \<and> pc \<noteq> W_exit"

text \<open>The worker has called \<open>gattlib_connect\<close> (line 113).\<close>

definition after_connect :: "wpc \<Rightarrow> bool" where
  "after_connect pc \<longleftrightarrow> in_critical_section pc \<and> pc \<noteq> W_print_start \<and> pc \<noteq> W_connect \<or> pc = W_exit"

text \<open>The worker has left the loop of lines 120-122.\<close>

definition past_wait :: "wpc \<Rightarrow> bool" where
  "past_wait pc \<longleftrightarrow> pc = W_unlock_done \<or> pc = W_print_done \<or> pc = W_unlock_g \<or> pc = W_exit"

text \<open>
  How far the callback of record \<open>c\<close> is (\<open>cbv\<close>: not started, or the calls it still has
  to make), against the record's flag \<open>d\<close>, the owner \<open>m\<close> of the record's mutex and the
  place \<open>pc\<close> of the record's worker.
\<close>

definition cb_ok :: "ptr \<Rightarrow> event list option \<Rightarrow> bool \<Rightarrow> tid option \<Rightarrow> wpc \<Rightarrow> bool" where
  "cb_ok c cbv d m pc \<longleftrightarrow>
     (case cbv of
        None \<Rightarrow> \<not> d \<and> m \<noteq> Some (Callback c) \<and> \<not> past_wait pc
      | Some evs \<Rightarrow>
          after_connect pc \<and>
          ((\<exists>pre. evs = pre @ done_signal c \<and> list_all quiet pre) \<and>
             \<not> d \<and> m \<noteq> Some (Callback c) \<and> \<not> past_wait pc
           \<or> evs = drop 1 (done_signal c) \<and> \<not> d \<and> m = Some (Callback c) \<and> \<not> past_wait pc
           \<or> evs = drop 2 (done_signal c) \<and> d \<and> m = Some (Callback c) \<and> \<not> past_wait pc
           \<or> evs = drop 3 (done_signal c) \<and> d \<and> m = Some (Callback c) \<and> \<not> past_wait pc \<and> pc \<noteq> W_wait
           \<or> evs = [] \<and> d \<and> m \<noteq> Some (Callback c) \<and> pc \<noteq> W_wait))"

text \<open>
  Record \<open>c\<close> in a state: its mutex is free or held by its worker or its callback; the
  worker holds it exactly at the loop test and at the unlock after the loop; the connect
  request is recorded exactly when the worker has made it.
\<close>

definition rec_inv :: "sys \<Rightarrow> ptr \<Rightarrow> bool" where
  "rec_inv s c \<longleftrightarrow>
     (mtx s (Done_mutex c) = None \<or> mtx s (Done_mutex c) = Some (Worker c) \<or>
      mtx s (Done_mutex c) = Some (Callback c)) \<and>
     (mtx s (Done_mutex c) = Some (Worker c) \<longleftrightarrow> wpc_of s c = W_test \<or> wpc_of s c = W_unlock_done) \<and>
     (requested s c \<longleftrightarrow> after_connect (wpc_of s c)) \<and>
     cb_ok c (cb s c) (done_flag s c) (mtx s (Done_mutex c)) (wpc_of s c)"

text \<open>
  \<open>g_mutex\<close> in a state: a worker owns it exactly while it is in its critical section, the
  controller exactly from line 180 to line 190 (or to the end, after a failed scan), and no
  callback ever.
\<close>

definition g_inv :: "sys \<Rightarrow> bool" where
  "g_inv s \<longleftrightarrow>
     (\<forall>c. in_critical_section (wpc_of s c) \<longleftrightarrow> mtx s G_mutex = Some (Worker c)) \<and>
     (mtx s G_mutex = Some Controller \<longleftrightarrow> kpc_of s = K_scan \<or> kpc_of s = K_scanned \<or> kpc_of s = K_exit) \<and>
     (\<forall>c. mtx s G_mutex \<noteq> Some (Callback c))"

definition sys_inv :: "sys \<Rightarrow> bool" where
  "sys_inv s \<longleftrightarrow> g_inv s \<and> (\<forall>c. rec_inv s c)"

text \<open>
  A run with two workers: the controller scans, creates the workers of records 1 and 2 and
  releases \<open>g_mutex\<close>; worker 1 takes it. Worker 2 cannot take its first step.
\<close>

definition two_workers :: sys where
  "two_workers =
     \<lparr>mtx = (\<lambda>_. None)(G_mutex \<mapsto> Worker 1), done_flag = (\<lambda>_. False)(1 := False, 2 := False),
      wpc_of = (\<lambda>_. W_none)(1 := W_print_start, 2 := W_lock_g), requested = (\<lambda>_. False),
      cb = (\<lambda>_. None), kpc_of = K_drain,
      log = [(Controller, Pthread_mutex_lock G_mutex), (Controller, Pthread_create 1 0),
             (Controller, Pthread_create 2 0), (Controller, Pthread_mutex_unlock G_mutex),
             (Worker 1, Pthread_mutex_lock G_mutex)]\<rparr>"





section \<open>Evaluating the library calls\<close>

lemma calloc_True:
  "calloc True s =
     (next_ptr s,
      s\<lparr>heap := (heap s)(next_ptr s \<mapsto> Conn \<lparr>thread = 0, adapter = NULL, addr = NULL,
             done_mutex = Uninit, done_cond = Uninit, is_done = False\<rparr>),
        next_ptr := Suc (next_ptr s), trace := trace s @ [Calloc (next_ptr s)]\<rparr>)"
  by (simp add: calloc_def alloc_def emit_def)

lemma calloc_False: "calloc False s = (NULL, s\<lparr>trace := trace s @ [Calloc NULL]\<rparr>)"
  by (simp add: calloc_def emit_def)

lemma strdup_True:
  "strdup True str s =
     (next_ptr s,
      s\<lparr>heap := (heap s)(next_ptr s \<mapsto> Str str), next_ptr := Suc (next_ptr s),
        trace := trace s @ [Strdup (next_ptr s)]\<rparr>)"
  by (simp add: strdup_def alloc_def emit_def)

lemma strdup_False: "strdup False str s = (NULL, s\<lparr>trace := trace s @ [Strdup NULL]\<rparr>)"
  by (simp add: strdup_def emit_def)

lemma upd_conn_live:
  "heap s p = Some (Conn c) \<Longrightarrow> upd_conn p f s = s\<lparr>heap := (heap s)(p \<mapsto> Conn (f c))\<rparr>"
  by (simp add: upd_conn_def)

lemma free_NULL: "free NULL s = s\<lparr>trace := trace s @ [Free NULL]\<rparr>"
  by (simp add: free_def emit_def)

lemma free_live:
  "p \<noteq> NULL \<Longrightarrow> heap s p = Some ob \<Longrightarrow>
   free p s = s\<lparr>heap := (heap s)(p := None), trace := trace s @ [Free p]\<rparr>"
  by (simp add: free_def emit_def)

lemma pthread_create_ok:
  "heap s p = Some (Conn c) \<Longrightarrow>
   pthread_create 0 p s =
     (0, s\<lparr>heap := (heap s)(p \<mapsto> Conn (c\<lparr>thread := Suc (length (threads s))\<rparr>)),
          threads := threads s @ [(Suc (length (threads s)), p)],
          trace := trace s @ [Pthread_create p 0]\<rparr>)"
  by (simp add: pthread_create_def emit_def upd_conn_def)

lemma pthread_create_fail:
  "r \<noteq> 0 \<Longrightarrow> pthread_create r p s = (r, s\<lparr>trace := trace s @ [Pthread_create p r]\<rparr>)"
  by (simp add: pthread_create_def emit_def)

lemmas exec_simps = emit_def calloc_True calloc_False strdup_True strdup_False upd_conn_live
  free_NULL free_live pthread_create_ok pthread_create_fail pthread_mutex_init_def
  pthread_cond_init_def pthread_mutex_destroy_def pthread_cond_destroy_def
  LIST_INSERT_HEAD_def Let_def

section \<open>The five ways through the discovery callback\<close>

lemma bdd_None: "ble_discovered_device e ad a None s = s\<lparr>trace := trace s @ [Printf (Discovered a None)]\<rparr>"
  by (simp add: ble_discovered_device_def emit_def)

lemma bdd_mismatch:
  "n \<noteq> CONNECT_DEVICE_NAME \<Longrightarrow>
   ble_discovered_device e ad a (Some n) s = s\<lparr>trace := trace s @ [Printf (Discovered a (Some n))]\<rparr>"
  by (simp add: ble_discovered_device_def emit_def)

lemma bdd_calloc_fail:
  "\<not> calloc_ok e \<Longrightarrow>
   ble_discovered_device e ad a (Some CONNECT_DEVICE_NAME) s =
     s\<lparr>trace := trace s @ [Printf (Discovered a (Some CONNECT_DEVICE_NAME)), Calloc NULL,
                            Log ''Failt to allocate connection.'']\<rparr>"
  by (simp add: ble_discovered_device_def exec_simps cong: let_weak_cong)

lemma bdd_accept:
  "calloc_ok e \<Longrightarrow> create_ret e = 0 \<Longrightarrow> 0 < next_ptr s \<Longrightarrow>
   ble_discovered_device e ad a (Some CONNECT_DEVICE_NAME) s =
    (if strdup_ok e then
       s\<lparr>g_ble_connections := next_ptr s # g_ble_connections s,
         heap := (heap s)(Suc (next_ptr s) \<mapsto> Str a,
                   next_ptr s \<mapsto> Conn (new_conn ad (Suc (next_ptr s)) (Suc (length (threads s))))),
         next_ptr := Suc (Suc (next_ptr s)),
         threads := threads s @ [(Suc (length (threads s)), next_ptr s)],
         trace := trace s @ [Printf (Discovered a (Some CONNECT_DEVICE_NAME)), Calloc (next_ptr s),
           Strdup (Suc (next_ptr s)), Pthread_mutex_init (next_ptr s), Pthread_cond_init (next_ptr s),
           Pthread_create (next_ptr s) 0, List_insert_head (next_ptr s)]\<rparr>
     else
       s\<lparr>g_ble_connections := next_ptr s # g_ble_connections s,
         heap := (heap s)(next_ptr s \<mapsto> Conn (new_conn ad NULL (Suc (length (threads s))))),
         next_ptr := Suc (next_ptr s),
         threads := threads s @ [(Suc (length (threads s)), next_ptr s)],
         trace := trace s @ [Printf (Discovered a (Some CONNECT_DEVICE_NAME)), Calloc (next_ptr s),
           Strdup NULL, Pthread_mutex_init (next_ptr s), Pthread_cond_init (next_ptr s),
           Pthread_create (next_ptr s) 0, List_insert_head (next_ptr s)]\<rparr>)"
  by (simp add: ble_discovered_device_def exec_simps new_conn_def cong: let_weak_cong)

lemma bdd_create_fail:
  "calloc_ok e \<Longrightarrow> create_ret e \<noteq> 0 \<Longrightarrow> 0 < next_ptr s \<Longrightarrow>
   ble_discovered_device e ad a (Some CONNECT_DEVICE_NAME) s =
    (if strdup_ok e then
       s\<lparr>heap := (heap s)(Suc (next_ptr s) \<mapsto> Str a, next_ptr s := None),
         next_ptr := Suc (Suc (next_ptr s)),
         trace := trace s @ [Printf (Discovered a (Some CONNECT_DEVICE_NAME)), Calloc (next_ptr s),
           Strdup (Suc (next_ptr s)), Pthread_mutex_init (next_ptr s), Pthread_cond_init (next_ptr s),
           Pthread_create (next_ptr s) (create_ret e),
           Log ''Failt to create BLE connection thread.'', Free (next_ptr s)]\<rparr>
     else
       s\<lparr>heap := (heap s)(next_ptr s := None),
         next_ptr := Suc (next_ptr s),
         trace := trace s @ [Printf (Discovered a (Some CONNECT_DEVICE_NAME)), Calloc (next_ptr s),
           Strdup NULL, Pthread_mutex_init (next_ptr s), Pthread_cond_init (next_ptr s),
           Pthread_create (next_ptr s) (create_ret e),
           Log ''Failt to create BLE connection thread.'', Free (next_ptr s)]\<rparr>)"
  by (simp add: ble_discovered_device_def exec_simps new_conn_def cong: let_weak_cong)

lemma bdd_cases:
  fixes e :: cb_env and name :: "string option"
  obtains (none) "name = None"
  | (mismatch) n where "name = Some n" "n \<noteq> CONNECT_DEVICE_NAME"
  | (calloc_fail) "name = Some CONNECT_DEVICE_NAME" "\<not> calloc_ok e"
  | (create_fail) "name = Some CONNECT_DEVICE_NAME" "calloc_ok e" "create_ret e \<noteq> 0"
  | (accept) "name = Some CONNECT_DEVICE_NAME" "calloc_ok e" "create_ret e = 0"
  by (cases name) auto

lemma bdd_registry:
  assumes "0 < next_ptr s"
  shows "g_ble_connections (ble_discovered_device e ad a name s) =
           (if accepted e name then next_ptr s # g_ble_connections s else g_ble_connections s)"
  using assms
  by (cases rule: bdd_cases [where e = e and name = name])
     (simp_all add: accepted_def bdd_None bdd_mismatch bdd_calloc_fail bdd_create_fail bdd_accept)

lemma bdd_threads:
  assumes "0 < next_ptr s"
  shows "threads (ble_discovered_device e ad a name s) =
           (if accepted e name then threads s @ [(Suc (length (threads s)), next_ptr s)] else threads s)"
  using assms
  by (cases rule: bdd_cases [where e = e and name = name])
     (simp_all add: accepted_def bdd_None bdd_mismatch bdd_calloc_fail bdd_create_fail bdd_accept)

lemma bdd_records:
  assumes "heap_wf s"
  shows "records (ble_discovered_device e ad a name s) =
           (if accepted e name then insert (next_ptr s) (records s) else records s)"
proof (cases rule: bdd_cases [where e = e and name = name])
  case accept
  with assms show ?thesis
    by (auto simp add: accepted_def bdd_accept records_def heap_wf_def)
next
  case create_fail
  with assms show ?thesis
    by (auto simp add: accepted_def bdd_create_fail records_def heap_wf_def)
qed (simp_all add: accepted_def bdd_None bdd_mismatch bdd_calloc_fail records_def)

lemma bdd_new_record:
  assumes "0 < next_ptr s" "accepted e name"
  shows "\<exists>a'. heap (ble_discovered_device e ad a name s) (next_ptr s) =
           Some (Conn (new_conn ad a' (Suc (length (threads s)))))"
  using assms by (auto simp add: accepted_def bdd_accept)
section \<open>Which advertisements get a record and a worker\<close>

text \<open>
  C7, as stated: a record is created and a worker spawned if and only if the name equals the
  target name. It fails where the name matches and \<open>calloc\<close> returns \<open>NULL\<close>: the
  callback returns at line 152 with no record and no thread.
\<close>

theorem matching_name_without_memory_counterexample:
  "accepted_name (Some ''Local'') \<and>
   g_ble_connections (ble_discovered_device \<lparr>calloc_ok = False, strdup_ok = True, create_ret = 0\<rparr>
      7 ''AA:BB'' (Some ''Local'') init_state) = [] \<and>
   threads (ble_discovered_device \<lparr>calloc_ok = False, strdup_ok = True, create_ret = 0\<rparr>
      7 ''AA:BB'' (Some ''Local'') init_state) = []"
  by (simp add: accepted_name_def ble_discovered_device_def CONNECT_DEVICE_NAME_def calloc_False emit_def
      init_state_def)

text \<open>
  C7, amended: for every advertisement, the callback inserts a record and spawns a worker if
  and only if the name equals the target name, \<open>calloc\<close> succeeds and \<open>pthread_create\<close>
  returns 0. Then exactly one record is new, it is at the head of the registry when the
  callback returns, and exactly one thread is new, running on that record. Otherwise (no
  name, another name, or a failed allocation or thread creation) the registry, the live
  records and the threads are what they were.
\<close>

theorem discovered_device_accepted_iff:
  assumes wf: "heap_wf s"
  shows
  "g_ble_connections (ble_discovered_device e ad a name s) =
     (if accepted e name then next_ptr s # g_ble_connections s else g_ble_connections s) \<and>
   threads (ble_discovered_device e ad a name s) =
     (if accepted e name then threads s @ [(Suc (length (threads s)), next_ptr s)] else threads s) \<and>
   records (ble_discovered_device e ad a name s) =
     (if accepted e name then insert (next_ptr s) (records s) else records s) \<and>
   next_ptr s \<notin> records s \<and>
   (accepted e name \<longleftrightarrow> accepted_name name \<and> calloc_ok e \<and> create_ret e = 0)"
proof -
  from wf have pos: "0 < next_ptr s"
    by (simp add: heap_wf_def)
  from wf have fresh: "next_ptr s \<notin> records s"
    by (simp add: heap_wf_def records_def)
  have iff: "accepted e name \<longleftrightarrow> accepted_name name \<and> calloc_ok e \<and> create_ret e = 0"
    by (simp add: accepted_def accepted_name_def)
  show ?thesis
    using bdd_registry [OF pos, of e ad a name] bdd_threads [OF pos, of e ad a name]
      bdd_records [OF wf, of e ad a name] fresh iff
    by blast
qed

theorem discovered_device_accepted_iff_witness:
  "heap_wf init_state \<and>
   g_ble_connections (ble_discovered_device \<lparr>calloc_ok = True, strdup_ok = True, create_ret = 0\<rparr>
      7 ''AA:BB'' (Some ''Local'') init_state) = [1] \<and>
   threads (ble_discovered_device \<lparr>calloc_ok = True, strdup_ok = True, create_ret = 0\<rparr>
      7 ''AA:BB'' (Some ''Local'') init_state) = [(1, 1)] \<and>
   g_ble_connections (ble_discovered_device \<lparr>calloc_ok = True, strdup_ok = True, create_ret = 0\<rparr>
      7 ''AA:BB'' (Some ''Other'') init_state) = []"
proof -
  have wf: "heap_wf init_state"
    by (simp add: heap_wf_def init_state_def)
  have acc: "accepted \<lparr>calloc_ok = True, strdup_ok = True, create_ret = 0\<rparr> (Some ''Local'')"
    by (simp add: accepted_def CONNECT_DEVICE_NAME_def)
  have rej: "\<not> accepted \<lparr>calloc_ok = True, strdup_ok = True, create_ret = 0\<rparr> (Some ''Other'')"
    by (simp add: accepted_def CONNECT_DEVICE_NAME_def)
  show ?thesis
    using wf
      discovered_device_accepted_iff [OF wf, of "\<lparr>calloc_ok = True, strdup_ok = True, create_ret = 0\<rparr>"
        7 "''AA:BB''" "Some ''Local''"]
      discovered_device_accepted_iff [OF wf, of "\<lparr>calloc_ok = True, strdup_ok = True, create_ret = 0\<rparr>"
        7 "''AA:BB''" "Some ''Other''"]
    by (simp add: acc rej init_state_def)
qed

section \<open>A failed thread creation\<close>

text \<open>
  C5 at the input where it breaks: the name matches, \<open>calloc\<close> and \<open>strdup\<close> succeed and
  \<open>pthread_create\<close> returns 11 (\<open>EAGAIN\<close>). The callback logs, frees the record (block 1)
  and inserts nothing, but the copied address string (block 2) is still allocated when it
  returns, no \<open>free\<close> was called on it, and nothing points to it any more.
\<close>

theorem thread_create_failure_leaks_address:
  "heap (ble_discovered_device \<lparr>calloc_ok = True, strdup_ok = True, create_ret = 11\<rparr>
      7 ''AA:BB'' (Some ''Local'') init_state) 2 = Some (Str ''AA:BB'') \<and>
   heap (ble_discovered_device \<lparr>calloc_ok = True, strdup_ok = True, create_ret = 11\<rparr>
      7 ''AA:BB'' (Some ''Local'') init_state) 1 = None \<and>
   g_ble_connections (ble_discovered_device \<lparr>calloc_ok = True, strdup_ok = True, create_ret = 11\<rparr>
      7 ''AA:BB'' (Some ''Local'') init_state) = [] \<and>
   trace (ble_discovered_device \<lparr>calloc_ok = True, strdup_ok = True, create_ret = 11\<rparr>
      7 ''AA:BB'' (Some ''Local'') init_state) =
     [Printf (Discovered ''AA:BB'' (Some ''Local'')), Calloc 1, Strdup 2, Pthread_mutex_init 1,
      Pthread_cond_init 1, Pthread_create 1 11, Log ''Failt to create BLE connection thread.'', Free 1]"
proof -
  have "ble_discovered_device \<lparr>calloc_ok = True, strdup_ok = True, create_ret = 11\<rparr>
          7 ''AA:BB'' (Some CONNECT_DEVICE_NAME) init_state =
        init_state\<lparr>heap := (heap init_state)(Suc (next_ptr init_state) \<mapsto> Str ''AA:BB'',
                     next_ptr init_state := None),
          next_ptr := Suc (Suc (next_ptr init_state)),
          trace := trace init_state @ [Printf (Discovered ''AA:BB'' (Some CONNECT_DEVICE_NAME)),
            Calloc (next_ptr init_state), Strdup (Suc (next_ptr init_state)),
            Pthread_mutex_init (next_ptr init_state), Pthread_cond_init (next_ptr init_state),
            Pthread_create (next_ptr init_state) 11,
            Log ''Failt to create BLE connection thread.'', Free (next_ptr init_state)]\<rparr>"
    using bdd_create_fail [of "\<lparr>calloc_ok = True, strdup_ok = True, create_ret = 11\<rparr>" init_state 7 "''AA:BB''"]
    by (simp add: init_state_def)
  then show ?thesis
    by (simp add: CONNECT_DEVICE_NAME_def init_state_def)
qed

section \<open>Adapter and scan failures\<close>

lemma ble_task_open_fail:
  "open_ret e \<noteq> 0 \<Longrightarrow>
   ble_task e s =
     (NULL, s\<lparr>trace := trace s @ [Gattlib_adapter_open (adapter_name s), Log ''Failed to open adapter.'']\<rparr>)"
  by (simp add: ble_task_def emit_def)

lemma main_open_fail:
  assumes "length argv = 1 \<or> length argv = 2" and "open_ret (task_env e) \<noteq> 0"
  shows "main argv e s =
    (mainloop_ret e,
     s\<lparr>adapter_name := (if length argv = 1 then None else Some (argv ! 1)),
       g_ble_connections := [],
       trace := trace s @ [Gattlib_mainloop] @
         (if mainloop_runs e
          then [Gattlib_adapter_open (if length argv = 1 then None else Some (argv ! 1)),
                Log ''Failed to open adapter.'']
          else []) @
         (if mainloop_ret e \<noteq> GATTLIB_SUCCESS then [Log ''Failed to create gattlib mainloop''] else [])\<rparr>)"
  using assms
  by (simp add: main_def gattlib_mainloop_def ble_task_open_fail emit_def Let_def cong: let_weak_cong)

text \<open>
  C3, as stated: when opening the adapter fails the process exits with the library's non-zero
  status. Here \<open>gattlib_adapter_open\<close> returns 1 and \<open>gattlib_mainloop\<close>, which gets nothing
  from the task but \<open>NULL\<close>, returns 0: the exit status is 0.
\<close>

theorem exit_status_not_propagated_counterexample:
  "open_ret (task_env \<lparr>mainloop_runs = True, mainloop_ret = 0,
      task_env = \<lparr>open_ret = 1, open_adapter = NULL, scan_ads = [], scan_ret = 0\<rparr>\<rparr>) \<noteq> 0 \<and>
   fst (main [''ble_scan''] \<lparr>mainloop_runs = True, mainloop_ret = 0,
      task_env = \<lparr>open_ret = 1, open_adapter = NULL, scan_ads = [], scan_ret = 0\<rparr>\<rparr> init_state) = 0"
  by (simp add: main_open_fail)

text \<open>
  C3, amended: when opening the adapter fails, the task logs the failure and returns at once:
  no scan is attempted, no worker thread is spawned, no memory is allocated and the registry
  is empty. The exit status of the process is the status \<open>gattlib_mainloop\<close> returns; the
  status of the failed open is not propagated to it.
\<close>

theorem adapter_open_failure:
  assumes "length argv = 1 \<or> length argv = 2" and "open_ret (task_env e) \<noteq> 0"
  shows "fst (main argv e s) = mainloop_ret e \<and>
    fst (main argv (e\<lparr>task_env := (task_env e)\<lparr>open_ret := r\<rparr>\<rparr>) s) = mainloop_ret e \<and>
    trace (snd (main argv e s)) = trace s @ [Gattlib_mainloop] @
         (if mainloop_runs e
          then [Gattlib_adapter_open (if length argv = 1 then None else Some (argv ! 1)),
                Log ''Failed to open adapter.'']
          else []) @
         (if mainloop_ret e \<noteq> GATTLIB_SUCCESS then [Log ''Failed to create gattlib mainloop''] else []) \<and>
    threads (snd (main argv e s)) = threads s \<and>
    heap (snd (main argv e s)) = heap s \<and>
    g_ble_connections (snd (main argv e s)) = [] \<and>
    g_mutex (snd (main argv e s)) = g_mutex s"
proof -
  have "fst (main argv e' s) = mainloop_ret e'" for e'
    using assms(1) by (simp add: main_def gattlib_mainloop_def Let_def split_beta cong: let_weak_cong)
  from this [of e] this [of "e\<lparr>task_env := (task_env e)\<lparr>open_ret := r\<rparr>\<rparr>"]
  show ?thesis
    by (simp add: main_open_fail [OF assms])
qed

theorem adapter_open_failure_witness:
  "(length [''ble_scan'', ''hci0''] = 1 \<or> length [''ble_scan'', ''hci0''] = 2) \<and>
   open_ret (task_env \<lparr>mainloop_runs = True, mainloop_ret = 0,
      task_env = \<lparr>open_ret = 1, open_adapter = NULL, scan_ads = [], scan_ret = 0\<rparr>\<rparr>) \<noteq> 0 \<and>
   trace (snd (main [''ble_scan'', ''hci0''] \<lparr>mainloop_runs = True, mainloop_ret = 0,
      task_env = \<lparr>open_ret = 1, open_adapter = NULL, scan_ads = [], scan_ret = 0\<rparr>\<rparr> init_state)) =
     [Gattlib_mainloop, Gattlib_adapter_open (Some ''hci0''), Log ''Failed to open adapter.'']"
proof -
  have a: "length [''ble_scan'', ''hci0''] = 1 \<or> length [''ble_scan'', ''hci0''] = 2"
    by simp
  have b: "open_ret (task_env \<lparr>mainloop_runs = True, mainloop_ret = 0,
      task_env = \<lparr>open_ret = 1, open_adapter = NULL, scan_ads = [], scan_ret = 0\<rparr>\<rparr>) \<noteq> 0"
    by simp
  show ?thesis
    using a b adapter_open_failure [OF a b, where s = init_state and r = 0]
    by (simp add: init_state_def GATTLIB_SUCCESS_def)
qed

text \<open>
  C4 at the input where it breaks: the adapter opens and \<open>gattlib_adapter_scan_enable\<close>
  returns 1. The task logs and jumps to \<open>EXIT\<close> (line 184), past the
  \<open>pthread_mutex_unlock\<close> of line 190: it closes the adapter and returns with \<open>g_mutex\<close>
  still locked.
\<close>

theorem scan_failure_keeps_g_mutex_locked:
  "g_mutex (snd (ble_task \<lparr>open_ret = 0, open_adapter = 7, scan_ads = [], scan_ret = 1\<rparr> init_state)) \<and>
   trace (snd (ble_task \<lparr>open_ret = 0, open_adapter = 7, scan_ads = [], scan_ret = 1\<rparr> init_state)) =
     [Gattlib_adapter_open None, Pthread_mutex_lock G_mutex, Gattlib_adapter_scan_enable 7 10,
      Log ''Failed to scan.'', Gattlib_adapter_close 7]"
  by (simp add: ble_task_def gattlib_adapter_scan_enable_def pthread_mutex_lock_g_def emit_def
      init_state_def BLE_SCAN_TIMEOUT_def Let_def cong: let_weak_cong)

section \<open>The completion callback\<close>

lemma print_services_no_disconnect: "Gattlib_disconnect conn w \<notin> set (print_services i svs)"
  by (induction i svs rule: print_services.induct) simp_all

lemma print_characteristics_no_disconnect: "Gattlib_disconnect conn w \<notin> set (print_characteristics i chs)"
  by (induction i chs rule: print_characteristics.induct) simp_all

lemma count_disconnect_exit: "count_list (disconnect_exit e conn c) (Gattlib_disconnect conn True) = 1"
  by (simp add: disconnect_exit_def)

lemma on_device_connect_split:
  "\<exists>pre. on_device_connect e ad dst conn err ud = pre @ disconnect_exit e conn ud \<and>
         Gattlib_disconnect conn True \<notin> set pre \<and>
         (primary_ret e \<noteq> 0 \<longrightarrow> Gattlib_discover_char conn \<notin> set pre)"
proof (cases "primary_ret e \<noteq> 0")
  case True
  then have "on_device_connect e ad dst conn err ud =
      [Gattlib_discover_primary conn, Log ''Fail to discover primary services.''] @ disconnect_exit e conn ud"
    by (simp add: on_device_connect_def)
  then show ?thesis
    using True by (intro exI [of _ "[Gattlib_discover_primary conn, Log ''Fail to discover primary services.'']"]) simp
next
  case prim: False
  show ?thesis
  proof (cases "char_ret e \<noteq> 0")
    case True
    with prim have "on_device_connect e ad dst conn err ud =
        (Gattlib_discover_primary conn # print_services 0 (services e) @
         [Free (services_ptr e), Gattlib_discover_char conn, Log ''Fail to discover characteristics.'']) @
        disconnect_exit e conn ud"
      by (simp add: on_device_connect_def)
    then show ?thesis
      using prim print_services_no_disconnect
      by (intro exI [of _ "Gattlib_discover_primary conn # print_services 0 (services e) @
         [Free (services_ptr e), Gattlib_discover_char conn, Log ''Fail to discover characteristics.'']"]) simp
  next
    case False
    with prim have "on_device_connect e ad dst conn err ud =
        (Gattlib_discover_primary conn # print_services 0 (services e) @
         [Free (services_ptr e), Gattlib_discover_char conn] @
         print_characteristics 0 (characteristics e) @ [Free (characteristics_ptr e)]) @
        disconnect_exit e conn ud"
      by (simp add: on_device_connect_def)
    then show ?thesis
      using prim print_services_no_disconnect print_characteristics_no_disconnect
      by (intro exI [of _ "Gattlib_discover_primary conn # print_services 0 (services e) @
         [Free (services_ptr e), Gattlib_discover_char conn] @
         print_characteristics 0 (characteristics e) @ [Free (characteristics_ptr e)]"]) simp
  qed
qed

lemma disconnect_exit_no_discovery:
  "Gattlib_discover_char conn \<notin> set (disconnect_exit e conn c) \<and>
   Gattlib_discover_primary conn \<notin> set (disconnect_exit e conn c)"
  by (simp add: disconnect_exit_def)

text \<open>
  C8: whatever the two discovery calls return, the callback's calls are some calls without a
  disconnect followed by the code at \<open>disconnect_exit\<close>, which begins with the one
  \<open>gattlib_disconnect(conn, true)\<close> of the run and makes no discovery call after it; and when
  \<open>gattlib_discover_primary\<close> fails, \<open>gattlib_discover_char\<close> is not called at all.
\<close>

theorem on_device_connect_disconnects_at_end:
  "(\<exists>pre. on_device_connect e ad dst conn err ud = pre @ disconnect_exit e conn ud \<and>
          Gattlib_disconnect conn True \<notin> set pre) \<and>
   hd (disconnect_exit e conn ud) = Gattlib_disconnect conn True \<and>
   Gattlib_discover_primary conn \<notin> set (disconnect_exit e conn ud) \<and>
   Gattlib_discover_char conn \<notin> set (disconnect_exit e conn ud) \<and>
   count_list (on_device_connect e ad dst conn err ud) (Gattlib_disconnect conn True) = 1 \<and>
   (primary_ret e \<noteq> 0 \<longrightarrow> Gattlib_discover_char conn \<notin> set (on_device_connect e ad dst conn err ud))"
proof -
  obtain pre where pre: "on_device_connect e ad dst conn err ud = pre @ disconnect_exit e conn ud"
    and nd: "Gattlib_disconnect conn True \<notin> set pre"
    and nc: "primary_ret e \<noteq> 0 \<longrightarrow> Gattlib_discover_char conn \<notin> set pre"
    using on_device_connect_split by blast
  have "count_list pre (Gattlib_disconnect conn True) = 0"
    using nd by (simp add: count_list_0_iff)
  then have cnt: "count_list (on_device_connect e ad dst conn err ud) (Gattlib_disconnect conn True) = 1"
    by (simp add: pre count_disconnect_exit)
  have hd: "hd (disconnect_exit e conn ud) = Gattlib_disconnect conn True"
    by (simp add: disconnect_exit_def)
  from pre nd nc cnt hd disconnect_exit_no_discovery [of conn e ud] show ?thesis
    by auto
qed

theorem on_device_connect_disconnects_at_end_witness:
  "primary_ret \<lparr>primary_ret = 1, services = [], services_ptr = NULL, char_ret = 0,
      characteristics = [], characteristics_ptr = NULL, disconnect_ret = 0\<rparr> \<noteq> 0 \<and>
   Gattlib_discover_char 5 \<notin> set (on_device_connect \<lparr>primary_ret = 1, services = [], services_ptr = NULL,
      char_ret = 0, characteristics = [], characteristics_ptr = NULL, disconnect_ret = 0\<rparr>
      7 ''AA:BB'' 5 0 9) \<and>
   count_list (on_device_connect \<lparr>primary_ret = 1, services = [], services_ptr = NULL,
      char_ret = 0, characteristics = [], characteristics_ptr = NULL, disconnect_ret = 0\<rparr>
      7 ''AA:BB'' 5 0 9) (Gattlib_disconnect 5 True) = 1"
  using on_device_connect_disconnects_at_end [of "\<lparr>primary_ret = 1, services = [], services_ptr = NULL,
      char_ret = 0, characteristics = [], characteristics_ptr = NULL, disconnect_ret = 0\<rparr>"
      7 "''AA:BB''" 5 0 9]
  by simp

text \<open>
  C6, as stated: the callback checks the error argument before it uses the handle. At
  \<open>error = 1\<close> the first thing it does is call \<open>gattlib_discover_primary\<close> on the handle.
\<close>

theorem on_device_connect_error_counterexample:
  "(1::int) \<noteq> 0 \<and>
   hd (on_device_connect \<lparr>primary_ret = 0, services = [], services_ptr = NULL, char_ret = 0,
      characteristics = [], characteristics_ptr = NULL, disconnect_ret = 0\<rparr>
      7 ''AA:BB'' 5 1 9) = Gattlib_discover_primary 5"
  by (simp add: on_device_connect_def)

text \<open>
  C6, amended: the callback does not look at the error argument. What it does is the same
  for every error value, and its first call is \<open>gattlib_discover_primary\<close> on the handle it
  was given.
\<close>

theorem on_device_connect_ignores_error:
  "on_device_connect e ad dst conn error ud = on_device_connect e ad dst conn 0 ud \<and>
   hd (on_device_connect e ad dst conn error ud) = Gattlib_discover_primary conn"
  by (simp add: on_device_connect_def)

section \<open>The registry between scan and drain\<close>

lemma released_append: "released x (tr @ tr') \<longleftrightarrow> released x tr \<or> released x tr'"
  by (auto simp add: released_def)

lemma reg_ok_live:
  assumes "reg_ok r h n th tr" and "h p = Some ob"
  shows "p < n"
proof (rule ccontr)
  assume "\<not> p < n"
  then have "n \<le> p" by simp
  with assms(1) have "h p = None" by (simp add: reg_ok_def)
  with assms(2) show False by simp
qed

lemma reg_ok_mem:
  assumes "reg_ok r h n th tr" and "p \<in> set r"
  obtains c where "p \<noteq> NULL" "p < n" "h p = Some (Conn c)" "(thread c, p) \<in> set th"
    "addr c = NULL \<or> (addr c < n \<and> (\<exists>str. h (addr c) = Some (Str str)))"
    "addr_of h p = addr c"
proof -
  from assms obtain c where c: "p \<noteq> NULL" "h p = Some (Conn c)" "(thread c, p) \<in> set th"
    "addr c = NULL \<or> (\<exists>str. h (addr c) = Some (Str str))"
    unfolding reg_ok_def by blast
  from c(2) have "p < n" by (rule reg_ok_live [OF assms(1)])
  moreover from c(4) have "addr c = NULL \<or> (addr c < n \<and> (\<exists>str. h (addr c) = Some (Str str)))"
    using reg_ok_live [OF assms(1)] by blast
  moreover from c(2) have "addr_of h p = addr c" by (simp add: addr_of_def)
  ultimately show ?thesis using c that by blast
qed

text \<open>Allocating above the counter, adding threads and logging leave the registry in order.\<close>

lemma reg_ok_grow:
  assumes ok: "reg_ok r h n th tr"
    and n': "n \<le> n'"
    and same: "\<And>p. p < n \<Longrightarrow> h' p = h p"
    and above: "\<And>p. n' \<le> p \<Longrightarrow> h' p = None"
    and th: "set th \<subseteq> set th'"
    and evs: "\<And>x. released x evs \<Longrightarrow> x = NULL \<or> (n \<le> x \<and> x < n' \<and> h' x = None)"
  shows "reg_ok r h' n' th' (tr @ evs)"
proof -
  have mem: "p \<noteq> NULL \<and> (\<exists>c. h' p = Some (Conn c) \<and> (thread c, p) \<in> set th' \<and>
      (addr c = NULL \<or> (\<exists>str. h' (addr c) = Some (Str str)))) \<and> addr_of h' p = addr_of h p"
    if "p \<in> set r" for p
  proof -
    from ok that obtain c where c: "p \<noteq> NULL" "p < n" "h p = Some (Conn c)" "(thread c, p) \<in> set th"
      "addr c = NULL \<or> (addr c < n \<and> (\<exists>str. h (addr c) = Some (Str str)))"
      by (rule reg_ok_mem)
    from c(2,3) have "h' p = Some (Conn c)" by (simp add: same)
    moreover from c(5) have "addr c = NULL \<or> (\<exists>str. h' (addr c) = Some (Str str))"
      by (auto simp add: same)
    moreover have "addr_of h' p = addr_of h p"
      using c(2) by (simp add: addr_of_def same)
    ultimately show ?thesis using c(1,4) th by blast
  qed
  have rel: "x = NULL \<or> (x < n' \<and> h' x = None)" if "released x (tr @ evs)" for x
  proof -
    from that consider "released x tr" | "released x evs" by (auto simp add: released_append)
    then show ?thesis
    proof cases
      case 1
      with ok have "x = NULL \<or> (x < n \<and> h x = None)" by (simp add: reg_ok_def)
      then show ?thesis using n' by (auto simp add: same)
    next
      case 2
      then show ?thesis using evs [of x] by auto
    qed
  qed
  from ok have "0 < n" "distinct r"
    and sep: "\<And>p q. p \<in> set r \<Longrightarrow> q \<in> set r \<Longrightarrow> p \<noteq> q \<Longrightarrow> addr_of h p = NULL \<or> addr_of h p \<noteq> addr_of h q"
    by (simp_all add: reg_ok_def)
  have c1: "0 < n'"
    using \<open>0 < n\<close> n' by simp
  have c0: "h' NULL = None"
    using ok \<open>0 < n\<close> by (simp add: same reg_ok_def)
  have c2: "\<forall>p. n' \<le> p \<longrightarrow> h' p = None"
    using above by simp
  have c4: "\<forall>p \<in> set r. p \<noteq> NULL \<and> (\<exists>c. h' p = Some (Conn c) \<and> (thread c, p) \<in> set th' \<and>
      (addr c = NULL \<or> (\<exists>str. h' (addr c) = Some (Str str))))"
    using mem by blast
  have c5: "\<forall>p \<in> set r. \<forall>q \<in> set r. p \<noteq> q \<longrightarrow> addr_of h' p = NULL \<or> addr_of h' p \<noteq> addr_of h' q"
    using sep by (simp add: mem)
  have c6: "\<forall>x. released x (tr @ evs) \<longrightarrow> x = NULL \<or> (x < n' \<and> h' x = None)"
    using rel by blast
  show ?thesis
    unfolding reg_ok_def using c0 c1 c2 \<open>distinct r\<close> c4 c5 c6 by blast
qed

text \<open>Putting a fresh live record with its own string at the head.\<close>

lemma reg_ok_insert:
  assumes ok: "reg_ok r h n th tr"
    and p: "p \<noteq> NULL" "p \<notin> set r" "h p = Some (Conn c)" "(thread c, p) \<in> set th"
    and a: "addr c = NULL \<or> ((\<exists>str. h (addr c) = Some (Str str)) \<and> (\<forall>q \<in> set r. addr_of h q \<noteq> addr c))"
  shows "reg_ok (p # r) h n th tr"
proof -
  have ap: "addr_of h p = addr c"
    using p(3) by (simp add: addr_of_def)
  from ok have sep: "\<And>p q. p \<in> set r \<Longrightarrow> q \<in> set r \<Longrightarrow> p \<noteq> q \<Longrightarrow> addr_of h p = NULL \<or> addr_of h p \<noteq> addr_of h q"
    by (simp add: reg_ok_def)
  have sep': "addr_of h x = NULL \<or> addr_of h x \<noteq> addr_of h y"
    if "x \<in> set (p # r)" "y \<in> set (p # r)" "x \<noteq> y" for x y
    using that sep a ap by (cases "x = p"; cases "y = p") auto
  from ok have c1: "0 < n" and c0: "h NULL = None" and c2: "\<forall>p. n \<le> p \<longrightarrow> h p = None" and "distinct r"
    and c4: "\<forall>p \<in> set r. p \<noteq> NULL \<and> (\<exists>c. h p = Some (Conn c) \<and> (thread c, p) \<in> set th \<and>
      (addr c = NULL \<or> (\<exists>str. h (addr c) = Some (Str str))))"
    and c6: "\<forall>x. released x tr \<longrightarrow> x = NULL \<or> (x < n \<and> h x = None)"
    by (simp_all add: reg_ok_def)
  have c3: "distinct (p # r)"
    using \<open>distinct r\<close> p(2) by simp
  have c4': "\<forall>x \<in> set (p # r). x \<noteq> NULL \<and> (\<exists>c. h x = Some (Conn c) \<and> (thread c, x) \<in> set th \<and>
      (addr c = NULL \<or> (\<exists>str. h (addr c) = Some (Str str))))"
    using c4 p a by auto
  have c5: "\<forall>x \<in> set (p # r). \<forall>y \<in> set (p # r). x \<noteq> y \<longrightarrow> addr_of h x = NULL \<or> addr_of h x \<noteq> addr_of h y"
    using sep' by blast
  show ?thesis
    unfolding reg_ok_def using c0 c1 c2 c3 c4' c5 c6 by blast
qed
lemma reg_ok_above: "reg_ok r h n th tr \<Longrightarrow> n \<le> p \<Longrightarrow> h p = None"
  by (simp add: reg_ok_def)

lemma reg_ok_accept_strdup:
  assumes ok: "reg_ok r h n th tr" and evs: "\<And>x. \<not> released x evs"
    and c: "addr c = Suc n" "thread c = t"
  shows "reg_ok (n # r) (h(Suc n \<mapsto> Str a, n \<mapsto> Conn c)) (Suc (Suc n)) (th @ [(t, n)]) (tr @ evs)"
proof -
  let ?h = "h(Suc n \<mapsto> Str a, n \<mapsto> Conn c)"
  have grow: "reg_ok r ?h (Suc (Suc n)) (th @ [(t, n)]) (tr @ evs)"
    using ok by (rule reg_ok_grow) (auto simp add: evs reg_ok_above [OF ok])
  have old: "q \<noteq> n \<and> addr_of ?h q \<noteq> Suc n" if "q \<in> set r" for q
  proof -
    from ok that obtain d where d: "q < n" "h q = Some (Conn d)"
      "addr d = NULL \<or> (addr d < n \<and> (\<exists>str. h (addr d) = Some (Str str)))"
      by (rule reg_ok_mem)
    then show ?thesis by (auto simp add: addr_of_def)
  qed
  from ok have "0 < n" by (simp add: reg_ok_def)
  show ?thesis
    using grow
  proof (rule reg_ok_insert)
    show "n \<noteq> NULL" using \<open>0 < n\<close> by simp
    show "n \<notin> set r" using old by blast
    show "?h n = Some (Conn c)" by simp
    show "(thread c, n) \<in> set (th @ [(t, n)])" using c by simp
    show "addr c = NULL \<or> ((\<exists>str. ?h (addr c) = Some (Str str)) \<and> (\<forall>q \<in> set r. addr_of ?h q \<noteq> addr c))"
      using old c by simp
  qed
qed

lemma reg_ok_accept_nostr:
  assumes ok: "reg_ok r h n th tr" and evs: "\<And>x. \<not> released x evs"
    and c: "addr c = NULL" "thread c = t"
  shows "reg_ok (n # r) (h(n \<mapsto> Conn c)) (Suc n) (th @ [(t, n)]) (tr @ evs)"
proof -
  let ?h = "h(n \<mapsto> Conn c)"
  have grow: "reg_ok r ?h (Suc n) (th @ [(t, n)]) (tr @ evs)"
    using ok by (rule reg_ok_grow) (auto simp add: evs reg_ok_above [OF ok])
  have old: "q \<noteq> n" if "q \<in> set r" for q
  proof -
    from ok that obtain d where d: "q < n" "h q = Some (Conn d)"
      by (rule reg_ok_mem)
    then show ?thesis by simp
  qed
  from ok have "0 < n" by (simp add: reg_ok_def)
  show ?thesis
    using grow
  proof (rule reg_ok_insert)
    show "n \<noteq> NULL" using \<open>0 < n\<close> by simp
    show "n \<notin> set r" using old by blast
    show "?h n = Some (Conn c)" by simp
    show "(thread c, n) \<in> set (th @ [(t, n)])" using c by simp
    show "addr c = NULL \<or> ((\<exists>str. ?h (addr c) = Some (Str str)) \<and> (\<forall>q \<in> set r. addr_of ?h q \<noteq> addr c))"
      using c by simp
  qed
qed

lemma bdd_reg_inv:
  assumes "reg_inv s"
  shows "reg_inv (ble_discovered_device e ad a name s)"
proof -
  from assms have nf: "\<not> fault s"
    and ok: "reg_ok (g_ble_connections s) (heap s) (next_ptr s) (threads s) (trace s)"
    by (simp_all add: reg_inv_def)
  from ok have pos: "0 < next_ptr s" by (simp add: reg_ok_def)
  have log: "reg_inv (s\<lparr>trace := trace s @ evs\<rparr>)" if "\<And>x. \<not> released x evs" for evs
  proof -
    have "reg_ok (g_ble_connections s) (heap s) (next_ptr s) (threads s) (trace s @ evs)"
      using ok by (rule reg_ok_grow) (simp_all add: that reg_ok_above [OF ok])
    with nf show ?thesis by (simp add: reg_inv_def)
  qed
  show ?thesis
  proof (cases rule: bdd_cases [where e = e and name = name])
    case none
    then show ?thesis by (simp add: bdd_None log released_def)
  next
    case (mismatch n)
    then show ?thesis by (simp add: bdd_mismatch log released_def)
  next
    case calloc_fail
    then show ?thesis by (simp add: bdd_calloc_fail log released_def)
  next
    case create_fail
    show ?thesis
    proof (cases "strdup_ok e")
      case True
      have "reg_ok (g_ble_connections s) ((heap s)(Suc (next_ptr s) \<mapsto> Str a, next_ptr s := None))
          (Suc (Suc (next_ptr s))) (threads s)
          (trace s @ [Printf (Discovered a (Some CONNECT_DEVICE_NAME)), Calloc (next_ptr s),
           Strdup (Suc (next_ptr s)), Pthread_mutex_init (next_ptr s), Pthread_cond_init (next_ptr s),
           Pthread_create (next_ptr s) (create_ret e),
           Log ''Failt to create BLE connection thread.'', Free (next_ptr s)])"
        using ok by (rule reg_ok_grow) (auto simp add: released_def reg_ok_above [OF ok])
      with True create_fail pos nf show ?thesis
        by (simp add: bdd_create_fail reg_inv_def)
    next
      case False
      have "reg_ok (g_ble_connections s) ((heap s)(next_ptr s := None))
          (Suc (next_ptr s)) (threads s)
          (trace s @ [Printf (Discovered a (Some CONNECT_DEVICE_NAME)), Calloc (next_ptr s),
           Strdup NULL, Pthread_mutex_init (next_ptr s), Pthread_cond_init (next_ptr s),
           Pthread_create (next_ptr s) (create_ret e),
           Log ''Failt to create BLE connection thread.'', Free (next_ptr s)])"
        using ok by (rule reg_ok_grow) (auto simp add: released_def reg_ok_above [OF ok])
      with False create_fail pos nf show ?thesis
        by (simp add: bdd_create_fail reg_inv_def)
    qed
  next
    case accept
    show ?thesis
    proof (cases "strdup_ok e")
      case True
      have "reg_ok (next_ptr s # g_ble_connections s)
          ((heap s)(Suc (next_ptr s) \<mapsto> Str a,
             next_ptr s \<mapsto> Conn (new_conn ad (Suc (next_ptr s)) (Suc (length (threads s))))))
          (Suc (Suc (next_ptr s))) (threads s @ [(Suc (length (threads s)), next_ptr s)])
          (trace s @ [Printf (Discovered a (Some CONNECT_DEVICE_NAME)), Calloc (next_ptr s),
           Strdup (Suc (next_ptr s)), Pthread_mutex_init (next_ptr s), Pthread_cond_init (next_ptr s),
           Pthread_create (next_ptr s) 0, List_insert_head (next_ptr s)])"
        using ok by (rule reg_ok_accept_strdup) (simp_all add: released_def new_conn_def)
      with True accept pos nf show ?thesis
        by (simp add: bdd_accept reg_inv_def)
    next
      case False
      have "reg_ok (next_ptr s # g_ble_connections s)
          ((heap s)(next_ptr s \<mapsto> Conn (new_conn ad NULL (Suc (length (threads s))))))
          (Suc (next_ptr s)) (threads s @ [(Suc (length (threads s)), next_ptr s)])
          (trace s @ [Printf (Discovered a (Some CONNECT_DEVICE_NAME)), Calloc (next_ptr s),
           Strdup NULL, Pthread_mutex_init (next_ptr s), Pthread_cond_init (next_ptr s),
           Pthread_create (next_ptr s) 0, List_insert_head (next_ptr s)])"
        using ok by (rule reg_ok_accept_nostr) (simp_all add: released_def new_conn_def)
      with False accept pos nf show ?thesis
        by (simp add: bdd_accept reg_inv_def)
    qed
  qed
qed

lemma scan_callbacks_reg_inv: "reg_inv s \<Longrightarrow> reg_inv (scan_callbacks ad ads s)"
  by (induction ad ads s rule: scan_callbacks.induct) (simp_all add: bdd_reg_inv)
section \<open>The drain loop\<close>

lemma map_filter_append: "List.map_filter f (xs @ ys) = List.map_filter f xs @ List.map_filter f ys"
  by (simp add: List.map_filter_def)

lemma inserted_append: "inserted (xs @ ys) = inserted xs @ inserted ys"
  by (simp add: inserted_def map_filter_append)

lemma removed_append: "removed (xs @ ys) = removed xs @ removed ys"
  by (simp add: removed_def map_filter_append)

lemma joined_append: "joined (xs @ ys) = joined xs @ joined ys"
  by (simp add: joined_def map_filter_append)

lemma drain_calls_filtered:
  "inserted (drain_calls h p) = []" "removed (drain_calls h p) = [p]"
  "joined (drain_calls h p) = [thread_of h p]"
  by (simp_all add: drain_calls_def inserted_def removed_def joined_def List.map_filter_def)

lemma concat_drain_calls_filtered:
  "inserted (concat (map (drain_calls h) r)) = []"
  "removed (concat (map (drain_calls h) r)) = r"
  "joined (concat (map (drain_calls h) r)) = map (thread_of h) r"
  by (induction r) (simp_all add: inserted_append removed_append joined_append drain_calls_filtered,
      simp_all add: inserted_def removed_def joined_def List.map_filter_def)

lemma drain_one_eval:
  assumes "heap s p = Some (Conn c)" and "addr c \<noteq> p"
    and "addr c = NULL \<or> (\<exists>str. heap s (addr c) = Some (Str str))" and "heap s NULL = None"
    and "p \<noteq> NULL"
  shows "drain_one p s =
    s\<lparr>g_ble_connections := tl (g_ble_connections s),
      heap := (heap s)(addr c := None, p := None),
      trace := trace s @ drain_calls (heap s) p\<rparr>"
proof (cases "addr c = NULL")
  case True
  have "(heap s)(NULL := None) = heap s"
    using assms(4) by (rule fun_upd_idem)
  with True assms(1,2,5) show ?thesis
    by (simp add: drain_one_def exec_simps drain_calls_def thread_of_def addr_of_def
        cong: let_weak_cong)
next
  case False
  with assms(3) obtain str where "heap s (addr c) = Some (Str str)" by blast
  with False assms(1,2,5) show ?thesis
    by (simp add: drain_one_def exec_simps drain_calls_def thread_of_def addr_of_def
        cong: let_weak_cong)
qed

lemma reg_ok_drain_step:
  assumes ok: "reg_ok (p # r) h n th tr" and c: "h p = Some (Conn c)"
  shows "reg_ok r (h(addr c := None, p := None)) n th (tr @ drain_calls h p)"
    and "\<And>q. q \<in> set r \<Longrightarrow> (h(addr c := None, p := None)) q = h q"
proof -
  let ?h = "h(addr c := None, p := None)"
  from ok have c1: "0 < n" and c0: "h NULL = None" and c2: "\<forall>x. n \<le> x \<longrightarrow> h x = None"
    and dist: "distinct (p # r)"
    and rel: "\<And>x. released x tr \<Longrightarrow> x = NULL \<or> (x < n \<and> h x = None)"
    by (simp_all add: reg_ok_def)
  from ok have sep: "\<And>x y. x \<in> set (p # r) \<Longrightarrow> y \<in> set (p # r) \<Longrightarrow> x \<noteq> y \<Longrightarrow>
               addr_of h x = NULL \<or> addr_of h x \<noteq> addr_of h y"
    unfolding reg_ok_def by blast
  have pa: "addr_of h p = addr c" "thread_of h p = thread c"
    using c by (simp_all add: addr_of_def thread_of_def)
  from ok obtain c' where p: "p \<noteq> NULL" "p < n" "h p = Some (Conn c')"
    "addr c' = NULL \<or> (addr c' < n \<and> (\<exists>str. h (addr c') = Some (Str str)))"
    by (rule reg_ok_mem [where p = p]) simp_all
  with c have pc: "addr c = NULL \<or> (addr c < n \<and> (\<exists>str. h (addr c) = Some (Str str)))"
    by simp
  have mem: "q \<noteq> NULL \<and> q \<noteq> p \<and> q \<noteq> addr c \<and>
      (\<exists>d. h q = Some (Conn d) \<and> ?h q = Some (Conn d) \<and> (thread d, q) \<in> set th \<and>
           (addr d = NULL \<or> (\<exists>str. ?h (addr d) = Some (Str str)))) \<and>
      addr_of ?h q = addr_of h q"
    if q: "q \<in> set r" for q
  proof -
    from q have q': "q \<in> set (p # r)" by simp
    from ok q' obtain d where d: "q \<noteq> NULL" "q < n" "h q = Some (Conn d)" "(thread d, q) \<in> set th"
      "addr d = NULL \<or> (addr d < n \<and> (\<exists>str. h (addr d) = Some (Str str)))" "addr_of h q = addr d"
      by (rule reg_ok_mem)
    from dist q have qp: "q \<noteq> p" by auto
    from pc d(1,3) have qa: "q \<noteq> addr c" by auto
    from sep [of q p] q' qp d(6) pa have da: "addr d = NULL \<or> addr d \<noteq> addr c" by simp
    from d(5) c have dp: "addr d = NULL \<or> addr d \<noteq> p" by auto
    have hq: "?h q = h q" using qp qa by simp
    have "addr d = NULL \<or> (\<exists>str. ?h (addr d) = Some (Str str))"
      using d(5) da dp by auto
    moreover have "addr_of ?h q = addr_of h q"
      by (simp only: addr_of_def hq)
    ultimately show ?thesis using d(1,3,4) qp qa hq by simp
  qed
  show "\<And>q. q \<in> set r \<Longrightarrow> ?h q = h q"
    using mem by auto
  have k0: "?h NULL = None" using c0 by simp
  have k2: "\<forall>x. n \<le> x \<longrightarrow> ?h x = None" using c2 by simp
  have k3: "distinct r" using dist by simp
  have k4: "\<forall>q \<in> set r. q \<noteq> NULL \<and> (\<exists>d. ?h q = Some (Conn d) \<and> (thread d, q) \<in> set th \<and>
      (addr d = NULL \<or> (\<exists>str. ?h (addr d) = Some (Str str))))"
    using mem by blast
  have k5: "\<forall>x \<in> set r. \<forall>y \<in> set r. x \<noteq> y \<longrightarrow> addr_of ?h x = NULL \<or> addr_of ?h x \<noteq> addr_of ?h y"
    using sep by (simp add: mem)
  have k6: "\<forall>x. released x (tr @ drain_calls h p) \<longrightarrow> x = NULL \<or> (x < n \<and> ?h x = None)"
  proof (intro allI impI)
    fix x assume "released x (tr @ drain_calls h p)"
    then consider "released x tr" | "x = p" | "x = addr c"
      by (auto simp add: released_append released_def drain_calls_def pa)
    then show "x = NULL \<or> (x < n \<and> ?h x = None)"
    proof cases
      case 1
      then show ?thesis using rel [of x] by auto
    next
      case 2
      then show ?thesis using p(2) by simp
    next
      case 3
      then show ?thesis using pc by auto
    qed
  qed
  show "reg_ok r ?h n th (tr @ drain_calls h p)"
    unfolding reg_ok_def using c1 k0 k2 k3 k4 k5 k6 by blast
qed

lemma drain_step:
  assumes inv: "reg_inv s" and reg: "g_ble_connections s = p # r"
  shows "reg_inv (drain_one p s)"
    and "g_ble_connections (drain_one p s) = r"
    and "trace (drain_one p s) = trace s @ drain_calls (heap s) p"
    and "threads (drain_one p s) = threads s"
    and "next_ptr (drain_one p s) = next_ptr s"
    and "g_mutex (drain_one p s) = g_mutex s"
    and "\<And>q. q \<in> set r \<Longrightarrow> heap (drain_one p s) q = heap s q"
    and "heap (drain_one p s) = (heap s)(addr_of (heap s) p := None, p := None)"
proof -
  from inv reg have nf: "\<not> fault s"
    and ok: "reg_ok (p # r) (heap s) (next_ptr s) (threads s) (trace s)"
    by (simp_all add: reg_inv_def)
  from ok obtain c where c: "p \<noteq> NULL" "heap s p = Some (Conn c)"
    "addr c = NULL \<or> (addr c < next_ptr s \<and> (\<exists>str. heap s (addr c) = Some (Str str)))"
    "addr_of (heap s) p = addr c"
    by (rule reg_ok_mem [where p = p]) simp_all
  from ok have h0: "heap s NULL = None" by (simp add: reg_ok_def)
  from c have ne: "addr c \<noteq> p" by auto
  have ev: "drain_one p s =
    s\<lparr>g_ble_connections := tl (g_ble_connections s),
      heap := (heap s)(addr c := None, p := None),
      trace := trace s @ drain_calls (heap s) p\<rparr>"
    using c(2) ne _ h0 c(1) by (rule drain_one_eval) (use c(3) in blast)
  show "reg_inv (drain_one p s)"
    using nf reg_ok_drain_step(1) [OF ok c(2)] by (simp add: ev reg_inv_def reg)
  show "g_ble_connections (drain_one p s) = r" by (simp add: ev reg)
  show "trace (drain_one p s) = trace s @ drain_calls (heap s) p" by (simp add: ev)
  show "threads (drain_one p s) = threads s" by (simp add: ev)
  show "next_ptr (drain_one p s) = next_ptr s" by (simp add: ev)
  show "g_mutex (drain_one p s) = g_mutex s" by (simp add: ev)
  show "\<And>q. q \<in> set r \<Longrightarrow> heap (drain_one p s) q = heap s q"
    using reg_ok_drain_step(2) [OF ok c(2)] by (simp add: ev)
  show "heap (drain_one p s) = (heap s)(addr_of (heap s) p := None, p := None)"
    by (simp add: ev c(4))
qed
declare drain.simps [simp del]

lemma drain_Nil: "g_ble_connections s = [] \<Longrightarrow> drain s = s"
  by (subst drain.simps) simp

lemma drain_Cons: "g_ble_connections s = p # r \<Longrightarrow> drain s = drain (drain_one p s)"
  by (subst drain.simps) simp

lemma drain_spec:
  assumes "reg_inv s"
  shows "reg_inv (drain s) \<and> g_ble_connections (drain s) = [] \<and>
    trace (drain s) = trace s @ concat (map (drain_calls (heap s)) (g_ble_connections s)) \<and>
    threads (drain s) = threads s \<and> g_mutex (drain s) = g_mutex s \<and>
    (\<forall>x. heap s x = None \<longrightarrow> heap (drain s) x = None) \<and>
    (\<forall>p \<in> set (g_ble_connections s).
       heap (drain s) p = None \<and>
       (addr_of (heap s) p \<noteq> NULL \<longrightarrow> heap (drain s) (addr_of (heap s) p) = None))"
  using assms
proof (induction s rule: drain.induct)
  case (1 s)
  show ?case
  proof (cases "g_ble_connections s")
    case Nil
    with "1.prems" show ?thesis by (simp add: drain_Nil)
  next
    case (Cons p r)
    let ?s1 = "drain_one p s"
    note st = drain_step [OF "1.prems" Cons]
    have eq: "drain s = drain ?s1"
      using Cons by (rule drain_Cons)
    from "1.IH" [OF Cons st(1)]
    have ih: "reg_inv (drain ?s1)" "g_ble_connections (drain ?s1) = []"
      "trace (drain ?s1) = trace ?s1 @ concat (map (drain_calls (heap ?s1)) r)"
      "threads (drain ?s1) = threads ?s1" "g_mutex (drain ?s1) = g_mutex ?s1"
      "\<And>x. heap ?s1 x = None \<Longrightarrow> heap (drain ?s1) x = None"
      "\<And>q. q \<in> set r \<Longrightarrow> heap (drain ?s1) q = None \<and>
          (addr_of (heap ?s1) q \<noteq> NULL \<longrightarrow> heap (drain ?s1) (addr_of (heap ?s1) q) = None)"
      by (simp_all add: st(2))
    have calls: "map (drain_calls (heap ?s1)) r = map (drain_calls (heap s)) r"
      by (rule map_cong) (simp_all add: drain_calls_def thread_of_def addr_of_def st(7))
    have same_addr: "addr_of (heap ?s1) q = addr_of (heap s) q" if "q \<in> set r" for q
      using that by (simp add: addr_of_def st(7))
    have gone: "heap ?s1 p = None" "addr_of (heap s) p \<noteq> NULL \<Longrightarrow> heap ?s1 (addr_of (heap s) p) = None"
      by (simp_all add: st(8))
    have mono: "heap ?s1 x = None" if "heap s x = None" for x
      using that by (simp add: st(8))
    have tr: "trace (drain s) = trace s @ concat (map (drain_calls (heap s)) (g_ble_connections s))"
      by (simp add: eq ih(3) st(3) calls Cons)
    have fr: "\<forall>q \<in> set (g_ble_connections s).
       heap (drain s) q = None \<and>
       (addr_of (heap s) q \<noteq> NULL \<longrightarrow> heap (drain s) (addr_of (heap s) q) = None)"
      using ih(6,7) gone same_addr by (auto simp add: eq Cons)
    show ?thesis
      using ih(1,2,4,5) tr fr mono ih(6) by (simp add: eq st(4,6))
  qed
qed

section \<open>From the start of the task to the drain loop\<close>

lemma filtered_simps:
  "inserted [] = []" "removed [] = []" "joined [] = []"
  "inserted (List_insert_head p # tr) = p # inserted tr"
  "removed (List_remove p # tr) = p # removed tr"
  "joined (Pthread_join t # tr) = t # joined tr"
  by (simp_all add: inserted_def removed_def joined_def List.map_filter_def)

lemma filtered_skip:
  "(\<And>p. ev \<noteq> List_insert_head p) \<Longrightarrow> inserted (ev # tr) = inserted tr"
  "(\<And>p. ev \<noteq> List_remove p) \<Longrightarrow> removed (ev # tr) = removed tr"
  "(\<And>t. ev \<noteq> Pthread_join t) \<Longrightarrow> joined (ev # tr) = joined tr"
  by (cases ev; simp add: inserted_def removed_def joined_def List.map_filter_def)+

lemma task_start_inv: "task_start s \<Longrightarrow> reg_inv s \<and> scan_order s"
proof -
  assume a: "task_start s"
  then have tr: "\<And>ev. ev \<in> set (trace s) \<Longrightarrow> ev = Gattlib_mainloop"
    by (auto simp add: task_start_def)
  have "inserted tr = [] \<and> removed tr = [] \<and> joined tr = []" if "\<And>ev. ev \<in> set tr \<Longrightarrow> ev = Gattlib_mainloop" for tr
    using that
  proof (induction tr)
    case Nil
    show ?case by (simp add: filtered_simps)
  next
    case (Cons a tr)
    then have "a = Gattlib_mainloop" by simp
    with Cons show ?case by (simp add: filtered_skip)
  qed
  with tr have "inserted (trace s) = [] \<and> removed (trace s) = [] \<and> joined (trace s) = []"
    by blast
  moreover have "\<not> released x (trace s)" for x
    using tr by (auto simp add: released_def)
  ultimately show ?thesis
    using a by (simp add: task_start_def reg_inv_def reg_ok_def scan_order_def)
qed

lemma bdd_scan_order:
  assumes "0 < next_ptr s" and "scan_order s"
  shows "scan_order (ble_discovered_device e ad a name s)"
  using assms
  by (cases rule: bdd_cases [where e = e and name = name])
     (simp_all add: bdd_None bdd_mismatch bdd_calloc_fail bdd_create_fail bdd_accept scan_order_def
        inserted_append removed_append joined_append filtered_simps filtered_skip)

lemma bdd_g_mutex:
  assumes "0 < next_ptr s"
  shows "g_mutex (ble_discovered_device e ad a name s) = g_mutex s"
  using assms
  by (cases rule: bdd_cases [where e = e and name = name])
     (simp_all add: bdd_None bdd_mismatch bdd_calloc_fail bdd_create_fail bdd_accept)

lemma reg_inv_pos: "reg_inv s \<Longrightarrow> 0 < next_ptr s"
  by (simp add: reg_inv_def reg_ok_def)

lemma scan_callbacks_inv:
  "reg_inv s \<Longrightarrow> scan_order s \<Longrightarrow>
   scan_order (scan_callbacks ad ads s) \<and> g_mutex (scan_callbacks ad ads s) = g_mutex s"
  by (induction ad ads s rule: scan_callbacks.induct)
     (simp_all add: bdd_reg_inv bdd_scan_order bdd_g_mutex reg_inv_pos)

lemma inv_trace_mutex:
  assumes "reg_inv s" and "scan_order s" and "\<And>x. \<not> released x evs"
    and "inserted evs = []" and "removed evs = []" and "joined evs = []"
  shows "reg_inv (s\<lparr>trace := trace s @ evs, g_mutex := b\<rparr>)"
    and "scan_order (s\<lparr>trace := trace s @ evs, g_mutex := b\<rparr>)"
proof -
  from assms(1) have nf: "\<not> fault s"
    and ok: "reg_ok (g_ble_connections s) (heap s) (next_ptr s) (threads s) (trace s)"
    by (simp_all add: reg_inv_def)
  have "reg_ok (g_ble_connections s) (heap s) (next_ptr s) (threads s) (trace s @ evs)"
    using ok by (rule reg_ok_grow) (simp_all add: assms(3) reg_ok_above [OF ok])
  with nf show "reg_inv (s\<lparr>trace := trace s @ evs, g_mutex := b\<rparr>)"
    by (simp add: reg_inv_def)
  show "scan_order (s\<lparr>trace := trace s @ evs, g_mutex := b\<rparr>)"
    using assms(2,4,5,6) by (simp add: scan_order_def inserted_append removed_append joined_append)
qed

lemma before_drain_eval:
  assumes "\<not> g_mutex s0"
    and "g_mutex (scan_callbacks (open_adapter e) (scan_ads e)
           (s0\<lparr>trace := trace s0 @ [Gattlib_adapter_open (adapter_name s0), Pthread_mutex_lock G_mutex,
              Gattlib_adapter_scan_enable (open_adapter e) BLE_SCAN_TIMEOUT], g_mutex := True\<rparr>))"
  shows "before_drain e s0 =
    (scan_callbacks (open_adapter e) (scan_ads e)
       (s0\<lparr>trace := trace s0 @ [Gattlib_adapter_open (adapter_name s0), Pthread_mutex_lock G_mutex,
          Gattlib_adapter_scan_enable (open_adapter e) BLE_SCAN_TIMEOUT], g_mutex := True\<rparr>))
     \<lparr>trace := trace (scan_callbacks (open_adapter e) (scan_ads e)
         (s0\<lparr>trace := trace s0 @ [Gattlib_adapter_open (adapter_name s0), Pthread_mutex_lock G_mutex,
            Gattlib_adapter_scan_enable (open_adapter e) BLE_SCAN_TIMEOUT], g_mutex := True\<rparr>)) @
         [Gattlib_adapter_scan_disable (open_adapter e), Printf Scan_completed,
          Pthread_mutex_unlock G_mutex],
       g_mutex := False\<rparr>"
proof -
  have a: "emit (Gattlib_adapter_scan_enable (open_adapter e) BLE_SCAN_TIMEOUT)
        (pthread_mutex_lock_g (emit (Gattlib_adapter_open (adapter_name s0)) s0)) =
      s0\<lparr>trace := trace s0 @ [Gattlib_adapter_open (adapter_name s0), Pthread_mutex_lock G_mutex,
          Gattlib_adapter_scan_enable (open_adapter e) BLE_SCAN_TIMEOUT], g_mutex := True\<rparr>"
    using assms(1) by (simp add: pthread_mutex_lock_g_def emit_def)
  have b: "pthread_mutex_unlock_g (emit (Printf Scan_completed) (emit (Gattlib_adapter_scan_disable ad) s)) =
      s\<lparr>trace := trace s @ [Gattlib_adapter_scan_disable ad, Printf Scan_completed,
          Pthread_mutex_unlock G_mutex], g_mutex := False\<rparr>" if "g_mutex s" for s ad
    using that by (simp add: pthread_mutex_unlock_g_def emit_def)
  show ?thesis
    unfolding before_drain_def gattlib_adapter_scan_enable_def snd_conv a
    using assms(2) by (rule b)
qed

lemma before_drain_inv:
  assumes "task_start s0"
  shows "reg_inv (before_drain e s0)" and "scan_order (before_drain e s0)"
    and "\<not> g_mutex (before_drain e s0)"
proof -
  from assms have inv0: "reg_inv s0" "scan_order s0" and free: "\<not> g_mutex s0"
    using task_start_inv by (simp_all add: task_start_def)
  let ?s3 = "s0\<lparr>trace := trace s0 @ [Gattlib_adapter_open (adapter_name s0), Pthread_mutex_lock G_mutex,
          Gattlib_adapter_scan_enable (open_adapter e) BLE_SCAN_TIMEOUT], g_mutex := True\<rparr>"
  have s3: "reg_inv ?s3" "scan_order ?s3"
    using inv0 by (rule inv_trace_mutex; simp add: released_def filtered_simps filtered_skip)+
  let ?s4 = "scan_callbacks (open_adapter e) (scan_ads e) ?s3"
  have s4: "reg_inv ?s4" "scan_order ?s4" "g_mutex ?s4"
    using scan_callbacks_reg_inv [OF s3(1)] scan_callbacks_inv [OF s3] by simp_all
  have eq: "before_drain e s0 = ?s4\<lparr>trace := trace ?s4 @
         [Gattlib_adapter_scan_disable (open_adapter e), Printf Scan_completed,
          Pthread_mutex_unlock G_mutex], g_mutex := False\<rparr>"
    using free s4(3) by (rule before_drain_eval)
  show "reg_inv (before_drain e s0)" "scan_order (before_drain e s0)"
    unfolding eq
    using s4(1,2) by (rule inv_trace_mutex; simp add: released_def filtered_simps filtered_skip)+
  show "\<not> g_mutex (before_drain e s0)"
    unfolding eq by simp
qed

lemma ble_task_success:
  assumes "open_ret e = 0" and "scan_ret e = 0"
  shows "ble_task e s = (NULL, emit (Gattlib_adapter_close (open_adapter e)) (drain (before_drain e s)))"
  using assms
  by (simp add: ble_task_def before_drain_def gattlib_adapter_scan_enable_def Let_def
      cong: let_weak_cong)

section \<open>Every record is released once, last inserted first\<close>

lemma count_concat_none:
  "(\<And>q. q \<in> set r \<Longrightarrow> y \<notin> set (f q)) \<Longrightarrow> count_list (concat (map f r)) y = 0"
  by (induction r) (simp_all add: count_list_0_iff)

lemma count_concat_one:
  assumes "distinct r" and "p \<in> set r" and "count_list (f p) y = 1"
    and "\<And>q. q \<in> set r \<Longrightarrow> q \<noteq> p \<Longrightarrow> y \<notin> set (f q)"
  shows "count_list (concat (map f r)) y = 1"
  using assms
proof (induction r)
  case Nil
  then show ?case by simp
next
  case (Cons a r)
  show ?case
  proof (cases "a = p")
    case True
    with Cons.prems have "count_list (concat (map f r)) y = 0"
      by (intro count_concat_none) auto
    with True Cons.prems(3) show ?thesis by simp
  next
    case False
    with Cons.prems have "y \<notin> set (f a)" by simp
    then have "count_list (f a) y = 0" by (simp add: count_list_0_iff)
    moreover have "count_list (concat (map f r)) y = 1"
      using Cons.prems False by (intro Cons.IH) auto
    ultimately show ?thesis by simp
  qed
qed

lemma drain_counts:
  assumes ok: "reg_ok r h n th tr" and p: "p \<in> set r"
  shows "count_list (tr @ concat (map (drain_calls h) r)) (Free p) = 1"
    and "count_list (tr @ concat (map (drain_calls h) r)) (Pthread_mutex_destroy p) = 1"
    and "count_list (tr @ concat (map (drain_calls h) r)) (Pthread_cond_destroy p) = 1"
    and "addr_of h p \<noteq> NULL \<Longrightarrow> h (addr_of h p) \<noteq> None"
    and "addr_of h p \<noteq> NULL \<Longrightarrow>
         count_list (tr @ concat (map (drain_calls h) r)) (Free (addr_of h p)) = 1"
proof -
  from ok have dist: "distinct r"
    and rel: "\<And>x. released x tr \<Longrightarrow> x = NULL \<or> (x < n \<and> h x = None)"
    by (simp_all add: reg_ok_def)
  from ok have sep: "\<And>x y. x \<in> set r \<Longrightarrow> y \<in> set r \<Longrightarrow> x \<noteq> y \<Longrightarrow>
      addr_of h x = NULL \<or> addr_of h x \<noteq> addr_of h y"
    unfolding reg_ok_def by blast
  from ok p obtain c where c: "p \<noteq> NULL" "h p = Some (Conn c)"
    "addr c = NULL \<or> (addr c < n \<and> (\<exists>str. h (addr c) = Some (Str str)))" "addr_of h p = addr c"
    by (rule reg_ok_mem)
  have other: "q \<noteq> addr_of h p \<and> addr_of h q \<noteq> p \<and> (addr_of h p \<noteq> NULL \<longrightarrow> addr_of h q \<noteq> addr_of h p)"
    if q: "q \<in> set r" "q \<noteq> p" for q
  proof -
    from ok q(1) obtain d where d: "q \<noteq> NULL" "h q = Some (Conn d)"
      "addr d = NULL \<or> (addr d < n \<and> (\<exists>str. h (addr d) = Some (Str str)))" "addr_of h q = addr d"
      by (rule reg_ok_mem)
    from sep [of p q] p q have "addr_of h p = NULL \<or> addr_of h p \<noteq> addr_of h q" by simp
    with c d show ?thesis by auto
  qed
  have self: "addr_of h p \<noteq> p"
    using c by auto
  have live: "\<not> released p tr"
    using rel [of p] c by auto
  then have tr0: "count_list tr (Free p) = 0" "count_list tr (Pthread_mutex_destroy p) = 0"
    "count_list tr (Pthread_cond_destroy p) = 0"
    by (simp_all add: released_def count_list_0_iff)
  have "count_list (concat (map (drain_calls h) r)) (Free p) = 1"
    using dist p
  proof (rule count_concat_one)
    show "count_list (drain_calls h p) (Free p) = 1"
      using self by (simp add: drain_calls_def)
    show "Free p \<notin> set (drain_calls h q)" if "q \<in> set r" "q \<noteq> p" for q
      using other [OF that] that(2) by (simp add: drain_calls_def)
  qed
  then show "count_list (tr @ concat (map (drain_calls h) r)) (Free p) = 1"
    by (simp add: tr0)
  have "count_list (concat (map (drain_calls h) r)) (Pthread_mutex_destroy p) = 1"
    using dist p by (rule count_concat_one) (auto simp add: drain_calls_def)
  then show "count_list (tr @ concat (map (drain_calls h) r)) (Pthread_mutex_destroy p) = 1"
    by (simp add: tr0)
  have "count_list (concat (map (drain_calls h) r)) (Pthread_cond_destroy p) = 1"
    using dist p by (rule count_concat_one) (auto simp add: drain_calls_def)
  then show "count_list (tr @ concat (map (drain_calls h) r)) (Pthread_cond_destroy p) = 1"
    by (simp add: tr0)
  show "h (addr_of h p) \<noteq> None" if "addr_of h p \<noteq> NULL"
    using that c by auto
  show "count_list (tr @ concat (map (drain_calls h) r)) (Free (addr_of h p)) = 1"
    if nn: "addr_of h p \<noteq> NULL"
  proof -
    have "\<not> released (addr_of h p) tr"
      using rel [of "addr_of h p"] c nn by auto
    then have "count_list tr (Free (addr_of h p)) = 0"
      by (simp add: released_def count_list_0_iff)
    moreover have "count_list (concat (map (drain_calls h) r)) (Free (addr_of h p)) = 1"
      using dist p
    proof (rule count_concat_one)
      show "count_list (drain_calls h p) (Free (addr_of h p)) = 1"
        using self by (simp add: drain_calls_def)
      show "Free (addr_of h p) \<notin> set (drain_calls h q)" if "q \<in> set r" "q \<noteq> p" for q
        using other [OF that] nn by (simp add: drain_calls_def)
    qed
    ultimately show ?thesis by simp
  qed
qed

text \<open>
  C9: let the task start, the adapter open and the scan deliver any advertisements, and let
  \<open>s\<close> be the state in which the controller reaches the drain loop. The registry is then the
  inserted records, last inserted first. The loop removes the records in that order, joining
  the thread of each. When it finishes the registry is empty, no fault has occurred (no block
  was freed twice, no dead record was read), and for every record that was in the registry
  the record's memory has been freed exactly once, its mutex and its condition variable have
  been destroyed exactly once, and its copied address string, if it has one, was live before
  the loop, is freed afterwards and has been freed exactly once. On the path where adapter
  open and scan succeed, the task is this loop followed by closing the adapter.
\<close>

theorem drain_reverse_order_and_release:
  assumes "task_start s0"
  shows "(open_ret e = 0 \<and> scan_ret e = 0 \<longrightarrow>
           snd (ble_task e s0) =
             emit (Gattlib_adapter_close (open_adapter e)) (drain (before_drain e s0))) \<and>
    g_ble_connections (before_drain e s0) = rev (inserted (trace (before_drain e s0))) \<and>
    removed (trace (drain (before_drain e s0))) = rev (inserted (trace (drain (before_drain e s0)))) \<and>
    joined (trace (drain (before_drain e s0))) =
      map (thread_of (heap (before_drain e s0))) (rev (inserted (trace (before_drain e s0)))) \<and>
    g_ble_connections (drain (before_drain e s0)) = [] \<and>
    \<not> fault (drain (before_drain e s0)) \<and>
    (\<forall>p \<in> set (g_ble_connections (before_drain e s0)).
       heap (before_drain e s0) p \<noteq> None \<and>
       heap (drain (before_drain e s0)) p = None \<and>
       count_list (trace (drain (before_drain e s0))) (Free p) = 1 \<and>
       count_list (trace (drain (before_drain e s0))) (Pthread_mutex_destroy p) = 1 \<and>
       count_list (trace (drain (before_drain e s0))) (Pthread_cond_destroy p) = 1 \<and>
       (addr_of (heap (before_drain e s0)) p \<noteq> NULL \<longrightarrow>
          heap (before_drain e s0) (addr_of (heap (before_drain e s0)) p) \<noteq> None \<and>
          heap (drain (before_drain e s0)) (addr_of (heap (before_drain e s0)) p) = None \<and>
          count_list (trace (drain (before_drain e s0)))
            (Free (addr_of (heap (before_drain e s0)) p)) = 1))"
proof -
  let ?s = "before_drain e s0"
  note inv = before_drain_inv [OF assms, of e]
  from inv(1) have ok: "reg_ok (g_ble_connections ?s) (heap ?s) (next_ptr ?s) (threads ?s) (trace ?s)"
    by (simp add: reg_inv_def)
  from inv(2) have ord: "removed (trace ?s) = []" "joined (trace ?s) = []"
    "g_ble_connections ?s = rev (inserted (trace ?s))"
    by (simp_all add: scan_order_def)
  from drain_spec [OF inv(1)]
  have d: "reg_inv (drain ?s)" "g_ble_connections (drain ?s) = []"
    "trace (drain ?s) = trace ?s @ concat (map (drain_calls (heap ?s)) (g_ble_connections ?s))"
    "\<And>p. p \<in> set (g_ble_connections ?s) \<Longrightarrow> heap (drain ?s) p = None \<and>
       (addr_of (heap ?s) p \<noteq> NULL \<longrightarrow> heap (drain ?s) (addr_of (heap ?s) p) = None)"
    by simp_all
  have task: "open_ret e = 0 \<and> scan_ret e = 0 \<longrightarrow>
      snd (ble_task e s0) = emit (Gattlib_adapter_close (open_adapter e)) (drain ?s)"
    by (simp add: ble_task_success)
  have rem: "removed (trace (drain ?s)) = rev (inserted (trace (drain ?s)))"
    by (simp add: d(3) removed_append inserted_append concat_drain_calls_filtered ord)
  have joi: "joined (trace (drain ?s)) = map (thread_of (heap ?s)) (rev (inserted (trace ?s)))"
    by (simp add: d(3) joined_append concat_drain_calls_filtered ord(2) ord(3) [symmetric])
  have nf: "\<not> fault (drain ?s)"
    using d(1) by (simp add: reg_inv_def)
  have each: "heap ?s p \<noteq> None \<and> heap (drain ?s) p = None \<and>
       count_list (trace (drain ?s)) (Free p) = 1 \<and>
       count_list (trace (drain ?s)) (Pthread_mutex_destroy p) = 1 \<and>
       count_list (trace (drain ?s)) (Pthread_cond_destroy p) = 1 \<and>
       (addr_of (heap ?s) p \<noteq> NULL \<longrightarrow>
          heap ?s (addr_of (heap ?s) p) \<noteq> None \<and>
          heap (drain ?s) (addr_of (heap ?s) p) = None \<and>
          count_list (trace (drain ?s)) (Free (addr_of (heap ?s) p)) = 1)"
    if p: "p \<in> set (g_ble_connections ?s)" for p
  proof -
    from ok p obtain c where "heap ?s p = Some (Conn c)" by (rule reg_ok_mem)
    then have "heap ?s p \<noteq> None" by simp
    then show ?thesis
      using d(4) [OF p] drain_counts [OF ok p] by (simp add: d(3))
  qed
  from task ord(3) rem joi d(2) nf each show ?thesis
    by blast
qed
lemma task_start_init: "task_start init_state"
  by (simp add: task_start_def init_state_def)

lemma before_drain_two_devices:
  "g_ble_connections (before_drain
      \<lparr>open_ret = 0, open_adapter = 7,
        scan_ads = [(''AA:BB'', Some ''Local'', \<lparr>calloc_ok = True, strdup_ok = True, create_ret = 0\<rparr>),
                    (''CC:DD'', None, \<lparr>calloc_ok = True, strdup_ok = True, create_ret = 0\<rparr>),
                    (''EE:FF'', Some ''Local'', \<lparr>calloc_ok = True, strdup_ok = True, create_ret = 0\<rparr>)],
        scan_ret = 0\<rparr> init_state) = [3, 1]"
  by (simp add: before_drain_def gattlib_adapter_scan_enable_def pthread_mutex_lock_g_def
      pthread_mutex_unlock_g_def emit_def init_state_def bdd_None
      bdd_accept [unfolded CONNECT_DEVICE_NAME_def])

theorem drain_reverse_order_and_release_witness:
  "task_start init_state \<and>
   g_ble_connections (before_drain
      \<lparr>open_ret = 0, open_adapter = 7,
        scan_ads = [(''AA:BB'', Some ''Local'', \<lparr>calloc_ok = True, strdup_ok = True, create_ret = 0\<rparr>),
                    (''CC:DD'', None, \<lparr>calloc_ok = True, strdup_ok = True, create_ret = 0\<rparr>),
                    (''EE:FF'', Some ''Local'', \<lparr>calloc_ok = True, strdup_ok = True, create_ret = 0\<rparr>)],
        scan_ret = 0\<rparr> init_state) = [3, 1] \<and>
   g_ble_connections (drain (before_drain
      \<lparr>open_ret = 0, open_adapter = 7,
        scan_ads = [(''AA:BB'', Some ''Local'', \<lparr>calloc_ok = True, strdup_ok = True, create_ret = 0\<rparr>),
                    (''CC:DD'', None, \<lparr>calloc_ok = True, strdup_ok = True, create_ret = 0\<rparr>),
                    (''EE:FF'', Some ''Local'', \<lparr>calloc_ok = True, strdup_ok = True, create_ret = 0\<rparr>)],
        scan_ret = 0\<rparr> init_state)) = [] \<and>
   count_list (trace (drain (before_drain
      \<lparr>open_ret = 0, open_adapter = 7,
        scan_ads = [(''AA:BB'', Some ''Local'', \<lparr>calloc_ok = True, strdup_ok = True, create_ret = 0\<rparr>),
                    (''CC:DD'', None, \<lparr>calloc_ok = True, strdup_ok = True, create_ret = 0\<rparr>),
                    (''EE:FF'', Some ''Local'', \<lparr>calloc_ok = True, strdup_ok = True, create_ret = 0\<rparr>)],
        scan_ret = 0\<rparr> init_state))) (Free 3) = 1 \<and>
   heap (drain (before_drain
      \<lparr>open_ret = 0, open_adapter = 7,
        scan_ads = [(''AA:BB'', Some ''Local'', \<lparr>calloc_ok = True, strdup_ok = True, create_ret = 0\<rparr>),
                    (''CC:DD'', None, \<lparr>calloc_ok = True, strdup_ok = True, create_ret = 0\<rparr>),
                    (''EE:FF'', Some ''Local'', \<lparr>calloc_ok = True, strdup_ok = True, create_ret = 0\<rparr>)],
        scan_ret = 0\<rparr> init_state)) 1 = None"
  using task_start_init before_drain_two_devices
    drain_reverse_order_and_release [OF task_start_init, of
      "\<lparr>open_ret = 0, open_adapter = 7,
        scan_ads = [(''AA:BB'', Some ''Local'', \<lparr>calloc_ok = True, strdup_ok = True, create_ret = 0\<rparr>),
                    (''CC:DD'', None, \<lparr>calloc_ok = True, strdup_ok = True, create_ret = 0\<rparr>),
                    (''EE:FF'', Some ''Local'', \<lparr>calloc_ok = True, strdup_ok = True, create_ret = 0\<rparr>)],
        scan_ret = 0\<rparr>"]
  by simp

section \<open>Every record in the registry has its thread\<close>

text \<open>
  C10: in the state in which the controller reaches the drain loop, whatever advertisements
  the scan delivered and whatever the system answered, every pointer in the registry is a
  live record whose \<open>thread\<close> field is the id of a thread that \<open>pthread_create\<close> created
  for that record; every \<open>pthread_join\<close> of the drain loop is on the id of a created thread;
  and a callback in which \<open>pthread_create\<close> fails inserts nothing and creates no thread.
\<close>

theorem registry_records_have_threads:
  assumes "task_start s0"
  shows "(\<forall>p \<in> set (g_ble_connections (before_drain e s0)).
            (\<exists>c. heap (before_drain e s0) p = Some (Conn c) \<and>
                 (thread c, p) \<in> set (threads (before_drain e s0)))) \<and>
    (\<forall>t \<in> set (joined (trace (drain (before_drain e s0)))).
        t \<in> fst ` set (threads (drain (before_drain e s0)))) \<and>
    (heap_wf s \<and> create_ret ce \<noteq> 0 \<longrightarrow>
       g_ble_connections (ble_discovered_device ce ad a name s) = g_ble_connections s \<and>
       threads (ble_discovered_device ce ad a name s) = threads s)"
proof -
  let ?s = "before_drain e s0"
  note inv = before_drain_inv [OF assms, of e]
  from inv(1) have ok: "reg_ok (g_ble_connections ?s) (heap ?s) (next_ptr ?s) (threads ?s) (trace ?s)"
    by (simp add: reg_inv_def)
  have mem: "\<exists>c. heap ?s p = Some (Conn c) \<and> (thread c, p) \<in> set (threads ?s) \<and>
      thread_of (heap ?s) p = thread c"
    if "p \<in> set (g_ble_connections ?s)" for p
  proof -
    from ok that obtain c where "heap ?s p = Some (Conn c)" "(thread c, p) \<in> set (threads ?s)"
      by (rule reg_ok_mem)
    then show ?thesis by (auto simp add: thread_of_def)
  qed
  from inv(2) have j0: "joined (trace ?s) = []"
    by (simp add: scan_order_def)
  from drain_spec [OF inv(1)]
  have d: "trace (drain ?s) = trace ?s @ concat (map (drain_calls (heap ?s)) (g_ble_connections ?s))"
    "threads (drain ?s) = threads ?s"
    by simp_all
  have j: "joined (trace (drain ?s)) = map (thread_of (heap ?s)) (g_ble_connections ?s)"
    by (simp add: d(1) joined_append concat_drain_calls_filtered j0)
  have joins: "t \<in> fst ` set (threads (drain ?s))" if "t \<in> set (joined (trace (drain ?s)))" for t
  proof -
    from that obtain p where p: "p \<in> set (g_ble_connections ?s)" "t = thread_of (heap ?s) p"
      by (auto simp add: j)
    from mem [OF p(1)] p(2) have "(t, p) \<in> set (threads ?s)"
      by auto
    then have "fst (t, p) \<in> fst ` set (threads ?s)"
      by (rule imageI)
    then show ?thesis by (simp add: d(2))
  qed
  have fail: "heap_wf s \<and> create_ret ce \<noteq> 0 \<longrightarrow>
       g_ble_connections (ble_discovered_device ce ad a name s) = g_ble_connections s \<and>
       threads (ble_discovered_device ce ad a name s) = threads s"
    by (simp add: heap_wf_def bdd_registry bdd_threads accepted_def)
  from mem joins fail show ?thesis
    by blast
qed

lemma joined_drain:
  assumes "task_start s0"
  shows "joined (trace (drain (before_drain e s0))) =
    map (thread_of (heap (before_drain e s0))) (g_ble_connections (before_drain e s0))"
proof -
  note inv = before_drain_inv [OF assms, of e]
  from inv(2) have j0: "joined (trace (before_drain e s0)) = []"
    by (simp add: scan_order_def)
  from drain_spec [OF inv(1)]
  have "trace (drain (before_drain e s0)) = trace (before_drain e s0) @
      concat (map (drain_calls (heap (before_drain e s0))) (g_ble_connections (before_drain e s0)))"
    by simp
  then show ?thesis
    by (simp add: joined_append concat_drain_calls_filtered j0)
qed

lemma before_drain_one_device:
  "g_ble_connections (before_drain \<lparr>open_ret = 0, open_adapter = 7,
        scan_ads = [(''AA:BB'', Some ''Local'', \<lparr>calloc_ok = True, strdup_ok = True, create_ret = 0\<rparr>)],
        scan_ret = 0\<rparr> init_state) = [1] \<and>
   thread_of (heap (before_drain \<lparr>open_ret = 0, open_adapter = 7,
        scan_ads = [(''AA:BB'', Some ''Local'', \<lparr>calloc_ok = True, strdup_ok = True, create_ret = 0\<rparr>)],
        scan_ret = 0\<rparr> init_state)) 1 = 1"
  by (simp add: before_drain_def gattlib_adapter_scan_enable_def pthread_mutex_lock_g_def
      pthread_mutex_unlock_g_def emit_def init_state_def thread_of_def new_conn_def
      bdd_accept [unfolded CONNECT_DEVICE_NAME_def])

theorem registry_records_have_threads_witness:
  "task_start init_state \<and>
   (heap_wf init_state \<and> create_ret \<lparr>calloc_ok = True, strdup_ok = True, create_ret = 11\<rparr> \<noteq> 0) \<and>
   g_ble_connections (ble_discovered_device \<lparr>calloc_ok = True, strdup_ok = True, create_ret = 11\<rparr>
      7 ''AA:BB'' (Some ''Local'') init_state) = [] \<and>
   threads (ble_discovered_device \<lparr>calloc_ok = True, strdup_ok = True, create_ret = 11\<rparr>
      7 ''AA:BB'' (Some ''Local'') init_state) = [] \<and>
   g_ble_connections (before_drain \<lparr>open_ret = 0, open_adapter = 7,
        scan_ads = [(''AA:BB'', Some ''Local'', \<lparr>calloc_ok = True, strdup_ok = True, create_ret = 0\<rparr>)],
        scan_ret = 0\<rparr> init_state) = [1] \<and>
   (\<exists>c. heap (before_drain \<lparr>open_ret = 0, open_adapter = 7,
        scan_ads = [(''AA:BB'', Some ''Local'', \<lparr>calloc_ok = True, strdup_ok = True, create_ret = 0\<rparr>)],
        scan_ret = 0\<rparr> init_state) 1 = Some (Conn c) \<and>
      (thread c, 1) \<in> set (threads (before_drain \<lparr>open_ret = 0, open_adapter = 7,
        scan_ads = [(''AA:BB'', Some ''Local'', \<lparr>calloc_ok = True, strdup_ok = True, create_ret = 0\<rparr>)],
        scan_ret = 0\<rparr> init_state))) \<and>
   joined (trace (drain (before_drain \<lparr>open_ret = 0, open_adapter = 7,
        scan_ads = [(''AA:BB'', Some ''Local'', \<lparr>calloc_ok = True, strdup_ok = True, create_ret = 0\<rparr>)],
        scan_ret = 0\<rparr> init_state))) = [1] \<and>
   1 \<in> fst ` set (threads (drain (before_drain \<lparr>open_ret = 0, open_adapter = 7,
        scan_ads = [(''AA:BB'', Some ''Local'', \<lparr>calloc_ok = True, strdup_ok = True, create_ret = 0\<rparr>)],
        scan_ret = 0\<rparr> init_state)))"
proof -
  have wf: "heap_wf init_state"
    by (simp add: heap_wf_def init_state_def)
  have j: "joined (trace (drain (before_drain \<lparr>open_ret = 0, open_adapter = 7,
        scan_ads = [(''AA:BB'', Some ''Local'', \<lparr>calloc_ok = True, strdup_ok = True, create_ret = 0\<rparr>)],
        scan_ret = 0\<rparr> init_state))) = [1]"
    using joined_drain [OF task_start_init] before_drain_one_device by simp
  show ?thesis
    using task_start_init wf before_drain_one_device j
      registry_records_have_threads [OF task_start_init, of
        "\<lparr>open_ret = 0, open_adapter = 7,
        scan_ads = [(''AA:BB'', Some ''Local'', \<lparr>calloc_ok = True, strdup_ok = True, create_ret = 0\<rparr>)],
        scan_ret = 0\<rparr>" init_state "\<lparr>calloc_ok = True, strdup_ok = True, create_ret = 11\<rparr>"
        7 "''AA:BB''" "Some ''Local''"]
    by (simp add: init_state_def)
qed

section \<open>Steps of the threads\<close>

lemma logged_fields [simp]:
  "mtx (logged t ev s) = mtx s" "done_flag (logged t ev s) = done_flag s"
  "wpc_of (logged t ev s) = wpc_of s" "requested (logged t ev s) = requested s"
  "cb (logged t ev s) = cb s" "kpc_of (logged t ev s) = kpc_of s"
  "log (logged t ev s) = log s @ [(t, ev)]"
  by (simp_all add: logged_def)

lemma goto_fields [simp]:
  "mtx (goto c pc s) = mtx s" "done_flag (goto c pc s) = done_flag s"
  "wpc_of (goto c pc s) = (wpc_of s)(c := pc)" "requested (goto c pc s) = requested s"
  "cb (goto c pc s) = cb s" "kpc_of (goto c pc s) = kpc_of s" "log (goto c pc s) = log s"
  by (simp_all add: goto_def)

lemma unlock_fields [simp]:
  "mtx (unlock t m s) = (mtx s)(m := None)" "done_flag (unlock t m s) = done_flag s"
  "wpc_of (unlock t m s) = wpc_of s" "requested (unlock t m s) = requested s"
  "cb (unlock t m s) = cb s" "kpc_of (unlock t m s) = kpc_of s"
  "log (unlock t m s) = log s @ [(t, Pthread_mutex_unlock m)]"
  by (simp_all add: unlock_def)

lemma lock_Some:
  "lock t m s = Some s1 \<longleftrightarrow>
     mtx s m = None \<and> s1 = logged t (Pthread_mutex_lock m) (s\<lparr>mtx := (mtx s)(m \<mapsto> t)\<rparr>)"
  by (auto simp add: lock_def)

lemma quiet_call: "quiet ev \<Longrightarrow> callback_call c ev s = Some (logged (Callback c) ev s)"
  by (cases ev) (simp_all add: quiet_def)

lemma quiet_print_services: "list_all quiet (print_services i svs)"
  by (induction i svs rule: print_services.induct) (simp_all add: quiet_def)

lemma quiet_print_characteristics: "list_all quiet (print_characteristics i chs)"
  by (induction i chs rule: print_characteristics.induct) (simp_all add: quiet_def)

lemma disconnect_exit_shape:
  "\<exists>pre. disconnect_exit e conn c = pre @ done_signal c \<and> list_all quiet pre"
proof (cases "disconnect_ret e \<noteq> GATTLIB_SUCCESS")
  case True
  then have "disconnect_exit e conn c =
      [Gattlib_disconnect conn True, Log ''Failed to disconnect from the bluetooth device''] @ done_signal c"
    by (simp add: disconnect_exit_def done_signal_def)
  then show ?thesis
    by (intro exI [of _ "[Gattlib_disconnect conn True, Log ''Failed to disconnect from the bluetooth device'']"])
       (simp add: quiet_def)
next
  case False
  then have "disconnect_exit e conn c = [Gattlib_disconnect conn True] @ done_signal c"
    by (simp add: disconnect_exit_def done_signal_def)
  then show ?thesis
    by (intro exI [of _ "[Gattlib_disconnect conn True]"]) (simp add: quiet_def)
qed

lemma on_device_connect_shape:
  "\<exists>pre. on_device_connect e ad dst conn err c = pre @ done_signal c \<and> list_all quiet pre"
proof -
  obtain tl where tl: "disconnect_exit e conn c = tl @ done_signal c" "list_all quiet tl"
    using disconnect_exit_shape by blast
  have "\<exists>hd. on_device_connect e ad dst conn err c = hd @ disconnect_exit e conn c \<and> list_all quiet hd"
  proof (cases "primary_ret e \<noteq> 0")
    case True
    then show ?thesis
      by (intro exI [of _ "[Gattlib_discover_primary conn, Log ''Fail to discover primary services.'']"])
         (simp add: on_device_connect_def quiet_def)
  next
    case prim: False
    show ?thesis
    proof (cases "char_ret e \<noteq> 0")
      case True
      with prim show ?thesis
        by (intro exI [of _ "Gattlib_discover_primary conn # print_services 0 (services e) @
          [Free (services_ptr e), Gattlib_discover_char conn, Log ''Fail to discover characteristics.'']"])
          (simp add: on_device_connect_def quiet_def quiet_print_services)
    next
      case False
      with prim show ?thesis
        by (intro exI [of _ "Gattlib_discover_primary conn # print_services 0 (services e) @
          [Free (services_ptr e), Gattlib_discover_char conn] @
          print_characteristics 0 (characteristics e) @ [Free (characteristics_ptr e)]"])
          (simp add: on_device_connect_def quiet_def quiet_print_services quiet_print_characteristics)
    qed
  qed
  then obtain hd where "on_device_connect e ad dst conn err c = hd @ disconnect_exit e conn c"
    "list_all quiet hd" by blast
  with tl show ?thesis
    by (intro exI [of _ "hd @ tl"]) simp
qed
section \<open>What holds in every reachable state\<close>

lemma sys_inv_init: "sys_inv init_sys"
  by (simp add: sys_inv_def g_inv_def rec_inv_def cb_ok_def init_sys_def in_critical_section_def
      after_connect_def past_wait_def)

lemmas pc_defs = in_critical_section_def after_connect_def past_wait_def

text \<open>The statements of the worker, one by one, as changes of the state.\<close>

lemma worker_step_cases:
  assumes "ble_connect_device c ret s = Some s1"
  obtains
    (lock_g) "wpc_of s c = W_lock_g" "mtx s G_mutex = None"
      "s1 = s\<lparr>mtx := (mtx s)(G_mutex \<mapsto> Worker c), wpc_of := (wpc_of s)(c := W_print_start),
               log := log s @ [(Worker c, Pthread_mutex_lock G_mutex)]\<rparr>"
  | (print_start) "wpc_of s c = W_print_start"
      "s1 = s\<lparr>wpc_of := (wpc_of s)(c := W_connect), log := log s @ [(Worker c, Printf (Start c))]\<rparr>"
  | (connect) "wpc_of s c = W_connect"
      "s1 = s\<lparr>wpc_of := (wpc_of s)(c := W_lock_done), requested := (requested s)(c := True),
               log := log s @ (Worker c, Gattlib_connect c) #
                 (if ret \<noteq> GATTLIB_SUCCESS
                  then [(Worker c, Log ''Failed to connect to the bluetooth device'')] else [])\<rparr>"
  | (lock_done) "wpc_of s c = W_lock_done" "mtx s (Done_mutex c) = None"
      "s1 = s\<lparr>mtx := (mtx s)(Done_mutex c \<mapsto> Worker c), wpc_of := (wpc_of s)(c := W_test),
               log := log s @ [(Worker c, Pthread_mutex_lock (Done_mutex c))]\<rparr>"
  | (wait) "wpc_of s c = W_test" "\<not> done_flag s c"
      "s1 = s\<lparr>mtx := (mtx s)(Done_mutex c := None), wpc_of := (wpc_of s)(c := W_wait),
               log := log s @ [(Worker c, Pthread_cond_wait c)]\<rparr>"
  | (leave_loop) "wpc_of s c = W_test" "done_flag s c"
      "s1 = s\<lparr>wpc_of := (wpc_of s)(c := W_unlock_done)\<rparr>"
  | (relock) "wpc_of s c = W_relock" "mtx s (Done_mutex c) = None"
      "s1 = s\<lparr>mtx := (mtx s)(Done_mutex c \<mapsto> Worker c), wpc_of := (wpc_of s)(c := W_test)\<rparr>"
  | (unlock_done) "wpc_of s c = W_unlock_done"
      "s1 = s\<lparr>mtx := (mtx s)(Done_mutex c := None), wpc_of := (wpc_of s)(c := W_print_done),
               log := log s @ [(Worker c, Pthread_mutex_unlock (Done_mutex c))]\<rparr>"
  | (print_done) "wpc_of s c = W_print_done"
      "s1 = s\<lparr>wpc_of := (wpc_of s)(c := W_unlock_g), log := log s @ [(Worker c, Printf (Done c))]\<rparr>"
  | (unlock_g) "wpc_of s c = W_unlock_g"
      "s1 = s\<lparr>mtx := (mtx s)(G_mutex := None), wpc_of := (wpc_of s)(c := W_exit),
               log := log s @ [(Worker c, Pthread_mutex_unlock G_mutex)]\<rparr>"
proof (cases "wpc_of s c")
  case W_none with assms show ?thesis by (simp add: ble_connect_device_def)
next
  case W_lock_g
  with assms have "mtx s G_mutex = None"
    "s1 = s\<lparr>mtx := (mtx s)(G_mutex \<mapsto> Worker c), wpc_of := (wpc_of s)(c := W_print_start),
               log := log s @ [(Worker c, Pthread_mutex_lock G_mutex)]\<rparr>"
    by (auto simp add: ble_connect_device_def lock_Some logged_def goto_def)
  with W_lock_g show ?thesis by (rule lock_g)
next
  case W_print_start
  with assms have "s1 = s\<lparr>wpc_of := (wpc_of s)(c := W_connect), log := log s @ [(Worker c, Printf (Start c))]\<rparr>"
    by (auto simp add: ble_connect_device_def logged_def goto_def)
  with W_print_start show ?thesis by (rule print_start)
next
  case W_connect
  with assms have "s1 = s\<lparr>wpc_of := (wpc_of s)(c := W_lock_done), requested := (requested s)(c := True),
               log := log s @ (Worker c, Gattlib_connect c) #
                 (if ret \<noteq> GATTLIB_SUCCESS
                  then [(Worker c, Log ''Failed to connect to the bluetooth device'')] else [])\<rparr>"
    by (auto simp add: ble_connect_device_def logged_def goto_def)
  with W_connect show ?thesis by (rule connect)
next
  case W_lock_done
  with assms have "mtx s (Done_mutex c) = None"
    "s1 = s\<lparr>mtx := (mtx s)(Done_mutex c \<mapsto> Worker c), wpc_of := (wpc_of s)(c := W_test),
               log := log s @ [(Worker c, Pthread_mutex_lock (Done_mutex c))]\<rparr>"
    by (auto simp add: ble_connect_device_def lock_Some logged_def goto_def)
  with W_lock_done show ?thesis by (rule lock_done)
next
  case W_test
  show ?thesis
  proof (cases "done_flag s c")
    case True
    with W_test assms have "s1 = s\<lparr>wpc_of := (wpc_of s)(c := W_unlock_done)\<rparr>"
      by (auto simp add: ble_connect_device_def goto_def)
    with W_test True show ?thesis by (rule leave_loop)
  next
    case False
    with W_test assms have "s1 = s\<lparr>mtx := (mtx s)(Done_mutex c := None), wpc_of := (wpc_of s)(c := W_wait),
               log := log s @ [(Worker c, Pthread_cond_wait c)]\<rparr>"
      by (auto simp add: ble_connect_device_def logged_def goto_def)
    with W_test False show ?thesis by (rule wait)
  qed
next
  case W_wait with assms show ?thesis by (simp add: ble_connect_device_def)
next
  case W_relock
  with assms have "mtx s (Done_mutex c) = None"
    "s1 = s\<lparr>mtx := (mtx s)(Done_mutex c \<mapsto> Worker c), wpc_of := (wpc_of s)(c := W_test)\<rparr>"
    by (auto simp add: ble_connect_device_def goto_def split: if_splits)
  with W_relock show ?thesis by (rule relock)
next
  case W_unlock_done
  with assms have "s1 = s\<lparr>mtx := (mtx s)(Done_mutex c := None), wpc_of := (wpc_of s)(c := W_print_done),
               log := log s @ [(Worker c, Pthread_mutex_unlock (Done_mutex c))]\<rparr>"
    by (auto simp add: ble_connect_device_def unlock_def logged_def goto_def)
  with W_unlock_done show ?thesis by (rule unlock_done)
next
  case W_print_done
  with assms have "s1 = s\<lparr>wpc_of := (wpc_of s)(c := W_unlock_g), log := log s @ [(Worker c, Printf (Done c))]\<rparr>"
    by (auto simp add: ble_connect_device_def logged_def goto_def)
  with W_print_done show ?thesis by (rule print_done)
next
  case W_unlock_g
  with assms have "s1 = s\<lparr>mtx := (mtx s)(G_mutex := None), wpc_of := (wpc_of s)(c := W_exit),
               log := log s @ [(Worker c, Pthread_mutex_unlock G_mutex)]\<rparr>"
    by (auto simp add: ble_connect_device_def unlock_def logged_def goto_def)
  with W_unlock_g show ?thesis by (rule unlock_g)
next
  case W_exit with assms show ?thesis by (simp add: ble_connect_device_def)
qed

lemma worker_step_g_inv:
  assumes g: "g_inv s" and st: "ble_connect_device c ret s = Some s1"
  shows "g_inv s1"
  using st
proof (cases rule: worker_step_cases)
  case lock_g
  with g show ?thesis unfolding g_inv_def by (auto simp add: pc_defs)
next
  case print_start
  with g show ?thesis unfolding g_inv_def by (auto simp add: pc_defs)
next
  case connect
  with g show ?thesis unfolding g_inv_def by (auto simp add: pc_defs)
next
  case lock_done
  with g show ?thesis unfolding g_inv_def by (auto simp add: pc_defs)
next
  case wait
  with g show ?thesis unfolding g_inv_def by (auto simp add: pc_defs)
next
  case leave_loop
  with g show ?thesis unfolding g_inv_def by (auto simp add: pc_defs)
next
  case relock
  with g show ?thesis unfolding g_inv_def by (auto simp add: pc_defs)
next
  case unlock_done
  with g show ?thesis unfolding g_inv_def by (auto simp add: pc_defs)
next
  case print_done
  with g show ?thesis unfolding g_inv_def by (auto simp add: pc_defs)
next
  case unlock_g
  from g have "in_critical_section (wpc_of s c) \<longleftrightarrow> mtx s G_mutex = Some (Worker c)"
    by (simp add: g_inv_def)
  with unlock_g have own: "mtx s G_mutex = Some (Worker c)"
    by (simp add: pc_defs)
  with g unlock_g show ?thesis unfolding g_inv_def by (auto simp add: pc_defs)
qed
lemma rec_inv_frame:
  assumes "rec_inv s c" and "wpc_of s1 c = wpc_of s c" and "cb s1 c = cb s c"
    and "done_flag s1 c = done_flag s c" and "mtx s1 (Done_mutex c) = mtx s (Done_mutex c)"
    and "requested s1 c = requested s c"
  shows "rec_inv s1 c"
  using assms(1) unfolding rec_inv_def assms(2-6) .

lemma worker_step_rec_inv:
  assumes r: "rec_inv s c'" and st: "ble_connect_device c ret s = Some s1"
  shows "rec_inv s1 c'"
proof (cases "c' = c")
  case False
  from st show ?thesis
    by (cases rule: worker_step_cases) (rule rec_inv_frame [OF r]; use False in simp)+
next
  case True
  from st show ?thesis
  proof (cases rule: worker_step_cases)
    case lock_g
    with r True show ?thesis
      unfolding rec_inv_def cb_ok_def by (auto simp add: pc_defs split: option.splits)
  next
    case print_start
    with r True show ?thesis
      unfolding rec_inv_def cb_ok_def by (auto simp add: pc_defs split: option.splits)
  next
    case connect
    with r True show ?thesis
      unfolding rec_inv_def cb_ok_def by (auto simp add: pc_defs split: option.splits)
  next
    case lock_done
    with r True show ?thesis
      unfolding rec_inv_def cb_ok_def by (auto simp add: pc_defs split: option.splits)
  next
    case wait
    with r True show ?thesis
      unfolding rec_inv_def cb_ok_def by (auto simp add: pc_defs split: option.splits)
  next
    case leave_loop
    with r True show ?thesis
      unfolding rec_inv_def cb_ok_def by (auto simp add: pc_defs split: option.splits)
  next
    case relock
    with r True show ?thesis
      unfolding rec_inv_def cb_ok_def by (auto simp add: pc_defs split: option.splits)
  next
    case unlock_done
    with r True show ?thesis
      unfolding rec_inv_def cb_ok_def by (auto simp add: pc_defs split: option.splits)
  next
    case print_done
    with r True show ?thesis
      unfolding rec_inv_def cb_ok_def by (auto simp add: pc_defs split: option.splits)
  next
    case unlock_g
    with r True show ?thesis
      unfolding rec_inv_def cb_ok_def by (auto simp add: pc_defs split: option.splits)
  qed
qed
text \<open>The calls of the callback, one by one, as changes of the state.\<close>

lemma callback_step_cases:
  assumes st: "callback_step c s = Some s1" and r: "rec_inv s c"
  obtains
    (quiet) ev pre where "cb s c = Some (ev # pre @ done_signal c)" "quiet ev" "list_all quiet pre"
      "s1 = s\<lparr>cb := (cb s)(c \<mapsto> pre @ done_signal c), log := log s @ [(Callback c, ev)]\<rparr>"
  | (lock) "cb s c = Some (done_signal c)" "mtx s (Done_mutex c) = None"
      "s1 = s\<lparr>mtx := (mtx s)(Done_mutex c \<mapsto> Callback c), cb := (cb s)(c \<mapsto> drop 1 (done_signal c)),
               log := log s @ [(Callback c, Pthread_mutex_lock (Done_mutex c))]\<rparr>"
  | (set) "cb s c = Some (drop 1 (done_signal c))"
      "s1 = s\<lparr>done_flag := (done_flag s)(c := True), cb := (cb s)(c \<mapsto> drop 2 (done_signal c)),
               log := log s @ [(Callback c, Set_is_done c True)]\<rparr>"
  | (signal) "cb s c = Some (drop 2 (done_signal c))"
      "s1 = s\<lparr>wpc_of := (if wpc_of s c = W_wait then (wpc_of s)(c := W_relock) else wpc_of s),
               cb := (cb s)(c \<mapsto> drop 3 (done_signal c)),
               log := log s @ [(Callback c, Pthread_cond_signal c)]\<rparr>"
  | (unlock) "cb s c = Some (drop 3 (done_signal c))"
      "s1 = s\<lparr>mtx := (mtx s)(Done_mutex c := None), cb := (cb s)(c \<mapsto> []),
               log := log s @ [(Callback c, Pthread_mutex_unlock (Done_mutex c))]\<rparr>"
proof -
  from st obtain ev rest s0 where evs: "cb s c = Some (ev # rest)"
    and call: "callback_call c ev s = Some s0" and s1: "s1 = s0\<lparr>cb := (cb s0)(c \<mapsto> rest)\<rparr>"
    by (auto simp add: callback_step_def split: option.splits list.splits)
  from r evs consider
      (p0) pre where "ev # rest = pre @ done_signal c" "list_all quiet pre"
    | (p1) "ev # rest = drop 1 (done_signal c)"
    | (p2) "ev # rest = drop 2 (done_signal c)"
    | (p3) "ev # rest = drop 3 (done_signal c)"
    unfolding rec_inv_def cb_ok_def by auto
  then show ?thesis
  proof cases
    case p0
    show ?thesis
    proof (cases pre)
      case Nil
      with p0 have ev: "ev = Pthread_mutex_lock (Done_mutex c)" "rest = drop 1 (done_signal c)"
        by (simp_all add: done_signal_def)
      with call have "mtx s (Done_mutex c) = None"
        "s0 = logged (Callback c) (Pthread_mutex_lock (Done_mutex c))
               (s\<lparr>mtx := (mtx s)(Done_mutex c \<mapsto> Callback c)\<rparr>)"
        by (simp_all add: lock_Some)
      with s1 ev have "s1 = s\<lparr>mtx := (mtx s)(Done_mutex c \<mapsto> Callback c),
               cb := (cb s)(c \<mapsto> drop 1 (done_signal c)),
               log := log s @ [(Callback c, Pthread_mutex_lock (Done_mutex c))]\<rparr>"
        by (simp add: logged_def)
      moreover from evs ev have "cb s c = Some (done_signal c)"
        by (simp add: done_signal_def)
      ultimately show ?thesis
        using \<open>mtx s (Done_mutex c) = None\<close> by (intro lock)
    next
      case (Cons q pre')
      with p0 have ev: "ev = q" "rest = pre' @ done_signal c" "quiet ev" "list_all quiet pre'"
        by simp_all
      with call have "s0 = logged (Callback c) ev s"
        by (simp add: quiet_call)
      with s1 ev have "s1 = s\<lparr>cb := (cb s)(c \<mapsto> pre' @ done_signal c), log := log s @ [(Callback c, ev)]\<rparr>"
        by (simp add: logged_def)
      moreover from evs ev have "cb s c = Some (ev # pre' @ done_signal c)" by simp
      ultimately show ?thesis
        using ev(3,4) by (intro quiet)
    qed
  next
    case p1
    then have ev: "ev = Set_is_done c True" "rest = drop 2 (done_signal c)"
      by (simp_all add: done_signal_def)
    with call have "s0 = logged (Callback c) (Set_is_done c True) (s\<lparr>done_flag := (done_flag s)(c := True)\<rparr>)"
      by simp
    with s1 ev have "s1 = s\<lparr>done_flag := (done_flag s)(c := True), cb := (cb s)(c \<mapsto> drop 2 (done_signal c)),
               log := log s @ [(Callback c, Set_is_done c True)]\<rparr>"
      by (simp add: logged_def)
    moreover from evs p1 have "cb s c = Some (drop 1 (done_signal c))" by simp
    ultimately show ?thesis by (intro set)
  next
    case p2
    then have ev: "ev = Pthread_cond_signal c" "rest = drop 3 (done_signal c)"
      by (simp_all add: done_signal_def)
    with call have "s0 = logged (Callback c) (Pthread_cond_signal c)
        (if wpc_of s c = W_wait then goto c W_relock s else s)"
      by simp
    with s1 ev have "s1 = s\<lparr>wpc_of := (if wpc_of s c = W_wait then (wpc_of s)(c := W_relock) else wpc_of s),
               cb := (cb s)(c \<mapsto> drop 3 (done_signal c)),
               log := log s @ [(Callback c, Pthread_cond_signal c)]\<rparr>"
      by (simp add: logged_def goto_def)
    moreover from evs p2 have "cb s c = Some (drop 2 (done_signal c))" by simp
    ultimately show ?thesis by (intro signal)
  next
    case p3
    then have ev: "ev = Pthread_mutex_unlock (Done_mutex c)" "rest = []"
      by (simp_all add: done_signal_def)
    with call have "s0 = unlock (Callback c) (Done_mutex c) s"
      by simp
    with s1 ev have "s1 = s\<lparr>mtx := (mtx s)(Done_mutex c := None), cb := (cb s)(c \<mapsto> []),
               log := log s @ [(Callback c, Pthread_mutex_unlock (Done_mutex c))]\<rparr>"
      by (simp add: unlock_def logged_def)
    moreover from evs p3 have "cb s c = Some (drop 3 (done_signal c))" by simp
    ultimately show ?thesis by (intro unlock)
  qed
qed

lemma callback_step_g_inv:
  assumes g: "g_inv s" and r: "rec_inv s c" and st: "callback_step c s = Some s1"
  shows "g_inv s1"
  using st r
proof (cases rule: callback_step_cases)
  case (quiet ev pre)
  with g show ?thesis unfolding g_inv_def by simp
next
  case lock
  with g show ?thesis unfolding g_inv_def by simp
next
  case set
  with g show ?thesis unfolding g_inv_def by simp
next
  case signal
  from g have "in_critical_section (wpc_of s c) \<longleftrightarrow> mtx s G_mutex = Some (Worker c)"
    by (simp add: g_inv_def)
  with g signal show ?thesis unfolding g_inv_def by (auto simp add: pc_defs)
next
  case unlock
  with g show ?thesis unfolding g_inv_def by simp
qed

lemma callback_step_rec_inv:
  assumes r': "rec_inv s c'" and r: "rec_inv s c" and st: "callback_step c s = Some s1"
  shows "rec_inv s1 c'"
proof (cases "c' = c")
  case False
  from st r show ?thesis
    by (cases rule: callback_step_cases) (rule rec_inv_frame [OF r']; use False in simp)+
next
  case True
  from st r show ?thesis
  proof (cases rule: callback_step_cases)
    case (quiet ev pre)
    with r True show ?thesis
      unfolding rec_inv_def cb_ok_def by (auto simp add: done_signal_def)
  next
    case lock
    with r True show ?thesis
      unfolding rec_inv_def cb_ok_def by (auto simp add: done_signal_def)
  next
    case set
    with r True show ?thesis
      unfolding rec_inv_def cb_ok_def by (auto simp add: done_signal_def)
  next
    case signal
    with r True show ?thesis
      unfolding rec_inv_def cb_ok_def by (auto simp add: done_signal_def pc_defs)
  next
    case unlock
    with r True show ?thesis
      unfolding rec_inv_def cb_ok_def by (auto simp add: done_signal_def pc_defs)
  qed
qed
lemma wakeup_inv:
  assumes inv: "sys_inv s" and st: "spurious_wakeup c s = Some s1"
  shows "sys_inv s1"
proof -
  from st have pc: "wpc_of s c = W_wait" and s1: "s1 = s\<lparr>wpc_of := (wpc_of s)(c := W_relock)\<rparr>"
    by (auto simp add: spurious_wakeup_def goto_def split: if_splits)
  from inv have g: "g_inv s" and r: "\<And>c'. rec_inv s c'"
    by (simp_all add: sys_inv_def)
  from g have "in_critical_section (wpc_of s c) \<longleftrightarrow> mtx s G_mutex = Some (Worker c)"
    by (simp add: g_inv_def)
  with g pc have "g_inv s1"
    unfolding g_inv_def s1 by (auto simp add: pc_defs)
  moreover have "rec_inv s1 c'" for c'
  proof (cases "c' = c")
    case False
    show ?thesis by (rule rec_inv_frame [OF r [of c']]; use False in \<open>simp add: s1\<close>)
  next
    case True
    with r [of c] pc show ?thesis
      unfolding rec_inv_def cb_ok_def s1 by (auto simp add: pc_defs split: option.splits)
  qed
  ultimately show ?thesis by (simp add: sys_inv_def)
qed

lemma invoke_inv:
  assumes inv: "sys_inv s" and st: "invoke_callback c e ad dst conn err s = Some s1"
  shows "sys_inv s1"
proof -
  from st have rq: "requested s c" and none: "cb s c = None"
    and s1: "s1 = s\<lparr>cb := (cb s)(c \<mapsto> on_device_connect e ad dst conn err c)\<rparr>"
    by (auto simp add: invoke_callback_def split: if_splits)
  from inv have g: "g_inv s" and r: "\<And>c'. rec_inv s c'"
    by (simp_all add: sys_inv_def)
  obtain pre where pre: "on_device_connect e ad dst conn err c = pre @ done_signal c" "list_all quiet pre"
    using on_device_connect_shape by blast
  from g have "g_inv s1"
    unfolding g_inv_def s1 by simp
  moreover have "rec_inv s1 c'" for c'
  proof (cases "c' = c")
    case False
    show ?thesis by (rule rec_inv_frame [OF r [of c']]; use False in \<open>simp add: s1\<close>)
  next
    case True
    with r [of c] rq none pre show ?thesis
      unfolding rec_inv_def cb_ok_def s1 by auto
  qed
  ultimately show ?thesis by (simp add: sys_inv_def)
qed

text \<open>The steps of the controller, as changes of the state.\<close>

lemma controller_step_cases:
  assumes "controller_step k s = Some s1"
  obtains
    (take_g) "k = Take_g" "kpc_of s = K_lock_g" "mtx s G_mutex = None"
      "s1 = s\<lparr>mtx := (mtx s)(G_mutex \<mapsto> Controller), kpc_of := K_scan,
               log := log s @ [(Controller, Pthread_mutex_lock G_mutex)]\<rparr>"
  | (spawn) c where "k = Spawn c" "kpc_of s = K_scan" "c \<noteq> NULL" "wpc_of s c = W_none"
      "s1 = s\<lparr>done_flag := (done_flag s)(c := False), wpc_of := (wpc_of s)(c := W_lock_g),
               log := log s @ [(Controller, Pthread_create c 0)]\<rparr>"
  | (scan_ok) "k = Scan_ok" "kpc_of s = K_scan" "s1 = s\<lparr>kpc_of := K_scanned\<rparr>"
  | (scan_failed) "k = Scan_failed" "kpc_of s = K_scan" "s1 = s\<lparr>kpc_of := K_exit\<rparr>"
  | (release_g) "k = Release_g" "kpc_of s = K_scanned"
      "s1 = s\<lparr>mtx := (mtx s)(G_mutex := None), kpc_of := K_drain,
               log := log s @ [(Controller, Pthread_mutex_unlock G_mutex)]\<rparr>"
proof (cases k)
  case Take_g
  with assms have "kpc_of s = K_lock_g" "mtx s G_mutex = None"
    "s1 = s\<lparr>mtx := (mtx s)(G_mutex \<mapsto> Controller), kpc_of := K_scan,
               log := log s @ [(Controller, Pthread_mutex_lock G_mutex)]\<rparr>"
    by (auto simp add: controller_step_def lock_Some logged_def split: if_splits)
  with Take_g show ?thesis by (intro take_g)
next
  case (Spawn c)
  with assms have "kpc_of s = K_scan" "c \<noteq> NULL" "wpc_of s c = W_none"
    "s1 = s\<lparr>done_flag := (done_flag s)(c := False), wpc_of := (wpc_of s)(c := W_lock_g),
               log := log s @ [(Controller, Pthread_create c 0)]\<rparr>"
    by (auto simp add: controller_step_def logged_def goto_def split: if_splits)
  with Spawn show ?thesis by (intro spawn)
next
  case Scan_ok
  with assms have "kpc_of s = K_scan" "s1 = s\<lparr>kpc_of := K_scanned\<rparr>"
    by (auto simp add: controller_step_def split: if_splits)
  with Scan_ok show ?thesis by (intro scan_ok)
next
  case Scan_failed
  with assms have "kpc_of s = K_scan" "s1 = s\<lparr>kpc_of := K_exit\<rparr>"
    by (auto simp add: controller_step_def split: if_splits)
  with Scan_failed show ?thesis by (intro scan_failed)
next
  case Release_g
  with assms have "kpc_of s = K_scanned"
    "s1 = s\<lparr>mtx := (mtx s)(G_mutex := None), kpc_of := K_drain,
               log := log s @ [(Controller, Pthread_mutex_unlock G_mutex)]\<rparr>"
    by (auto simp add: controller_step_def unlock_def logged_def split: if_splits)
  with Release_g show ?thesis by (intro release_g)
qed

lemma controller_step_inv:
  assumes inv: "sys_inv s" and st: "controller_step k s = Some s1"
  shows "sys_inv s1"
proof -
  from inv have g: "g_inv s" and r: "\<And>c'. rec_inv s c'"
    by (simp_all add: sys_inv_def)
  from st show ?thesis
  proof (cases rule: controller_step_cases)
    case take_g
    with g have "g_inv s1" unfolding g_inv_def by (auto simp add: pc_defs)
    moreover have "rec_inv s1 c'" for c'
      by (rule rec_inv_frame [OF r [of c']]; simp add: take_g)
    ultimately show ?thesis by (simp add: sys_inv_def)
  next
    case (spawn c)
    with g have "g_inv s1" unfolding g_inv_def by (auto simp add: pc_defs)
    moreover have "rec_inv s1 c'" for c'
    proof (cases "c' = c")
      case False
      show ?thesis by (rule rec_inv_frame [OF r [of c']]; use False in \<open>simp add: spawn\<close>)
    next
      case True
      with r [of c] spawn show ?thesis
        unfolding rec_inv_def cb_ok_def by (auto simp add: pc_defs split: option.splits)
    qed
    ultimately show ?thesis by (simp add: sys_inv_def)
  next
    case scan_ok
    with g have "g_inv s1" unfolding g_inv_def by (auto simp add: pc_defs)
    moreover have "rec_inv s1 c'" for c'
      by (rule rec_inv_frame [OF r [of c']]; simp add: scan_ok)
    ultimately show ?thesis by (simp add: sys_inv_def)
  next
    case scan_failed
    with g have "g_inv s1" unfolding g_inv_def by (auto simp add: pc_defs)
    moreover have "rec_inv s1 c'" for c'
      by (rule rec_inv_frame [OF r [of c']]; simp add: scan_failed)
    ultimately show ?thesis by (simp add: sys_inv_def)
  next
    case release_g
    with g have "g_inv s1" unfolding g_inv_def by (auto simp add: pc_defs)
    moreover have "rec_inv s1 c'" for c'
      by (rule rec_inv_frame [OF r [of c']]; simp add: release_g)
    ultimately show ?thesis by (simp add: sys_inv_def)
  qed
qed

lemma step_inv:
  assumes inv: "sys_inv s" and st: "step ch s = Some s1"
  shows "sys_inv s1"
proof (cases ch)
  case (Ctl k)
  with inv st show ?thesis by (simp add: controller_step_inv)
next
  case (Wrk c ret)
  with inv st show ?thesis
    by (auto simp add: sys_inv_def intro: worker_step_g_inv worker_step_rec_inv)
next
  case (Wake c)
  with inv st show ?thesis by (simp add: wakeup_inv)
next
  case (Invoke c e ad dst conn err)
  with inv st show ?thesis by (simp add: invoke_inv)
next
  case (Cbk c)
  with inv st show ?thesis
    by (auto simp add: sys_inv_def intro: callback_step_g_inv callback_step_rec_inv)
qed

lemma reachable_inv: "reachable s \<Longrightarrow> sys_inv s"
  by (induction rule: reachable.induct) (simp_all add: sys_inv_init step_inv)

lemma run_reachable: "reachable s \<Longrightarrow> run chs s = Some s1 \<Longrightarrow> reachable s1"
proof (induction chs arbitrary: s)
  case Nil
  then show ?case by simp
next
  case (Cons ch chs)
  from Cons.prems(2) obtain s2 where s2: "step ch s = Some s2" "run chs s2 = Some s1"
    by (auto split: option.splits)
  from Cons.prems(1) s2(1) have "reachable s2" by (rule reachable.step)
  then show ?case using s2(2) by (rule Cons.IH)
qed

section \<open>One worker at a time\<close>

text \<open>
  C1: in every state the threads can reach, under any schedule and for any number of
  workers, at most one worker is between its \<open>pthread_mutex_lock(&g_mutex)\<close> and its
  \<open>pthread_mutex_unlock(&g_mutex)\<close>, and that worker is the owner of \<open>g_mutex\<close>. The part
  of the sequence that runs in the completion callback (discovery and disconnect) is inside
  it too: as long as the callback of a record has calls left to make, the worker of that
  record is in its critical section. The library is taken to start the callback of a record
  at most once, after \<open>gattlib_connect\<close> was called for it.
\<close>

theorem workers_mutually_exclusive:
  assumes "reachable s"
  shows "(\<forall>c1 c2. in_critical_section (wpc_of s c1) \<and> in_critical_section (wpc_of s c2) \<longrightarrow> c1 = c2) \<and>
    (\<forall>c. in_critical_section (wpc_of s c) \<longrightarrow> mtx s G_mutex = Some (Worker c)) \<and>
    (\<forall>c evs. cb s c = Some evs \<and> evs \<noteq> [] \<longrightarrow> in_critical_section (wpc_of s c))"
proof -
  from assms have inv: "sys_inv s" by (rule reachable_inv)
  then have g: "\<And>c. in_critical_section (wpc_of s c) \<longleftrightarrow> mtx s G_mutex = Some (Worker c)"
    and r: "\<And>c. rec_inv s c"
    by (simp_all add: sys_inv_def g_inv_def)
  have excl: "c1 = c2" if "in_critical_section (wpc_of s c1)" "in_critical_section (wpc_of s c2)" for c1 c2
  proof -
    from that have "mtx s G_mutex = Some (Worker c1)" "mtx s G_mutex = Some (Worker c2)"
      by (simp_all add: g)
    then show ?thesis by simp
  qed
  have sess: "in_critical_section (wpc_of s c)" if "cb s c = Some evs" "evs \<noteq> []" for c evs
    using r [of c] that unfolding rec_inv_def cb_ok_def by (auto simp add: pc_defs)
  from excl g sess show ?thesis by blast
qed

lemma run_two_workers:
  "run [Ctl Take_g, Ctl (Spawn 1), Ctl (Spawn 2), Ctl Scan_ok, Ctl Release_g, Wrk 1 0] init_sys =
     Some two_workers"
  by (simp add: init_sys_def two_workers_def controller_step_def ble_connect_device_def lock_def
      unlock_def logged_def goto_def fun_upd_twist)

lemma reachable_two_workers: "reachable two_workers"
  using reachable.init run_two_workers by (rule run_reachable)

theorem workers_mutually_exclusive_witness:
  "reachable two_workers \<and>
   in_critical_section (wpc_of two_workers 1) \<and>
   \<not> in_critical_section (wpc_of two_workers 2) \<and>
   mtx two_workers G_mutex = Some (Worker 1) \<and>
   step (Wrk 2 0) two_workers = None"
proof -
  have a: "in_critical_section (wpc_of two_workers 1)"
    by (simp add: two_workers_def in_critical_section_def)
  have b: "step (Wrk 2 0) two_workers = None"
    by (simp add: two_workers_def ble_connect_device_def lock_def)
  have c: "\<not> in_critical_section (wpc_of two_workers 2)"
    by (simp add: two_workers_def in_critical_section_def)
  from workers_mutually_exclusive [OF reachable_two_workers] a
  have "mtx two_workers G_mutex = Some (Worker 1)"
    by blast
  with reachable_two_workers a b c show ?thesis by simp
qed

section \<open>The completion flag and its signal\<close>











end
